theory Spec2Isabelle
  imports Main "HOL-Library.Char_ord" "HOL-Library.List_Lexorder"
begin

section \<open>Data model (src/lib/db.ts)\<close>

text \<open>
  Timestamps are the integers returned by \<^verbatim>\<open>Date.now()\<close> (milliseconds), identifiers are
  strings, and a field of type \<^verbatim>\<open>T | null\<close> is an option.  The field \<^verbatim>\<open>id\<close> of a record is
  called \<open>sessId\<close> for a session and \<open>segId\<close> for a segment.
\<close>

record session =
  sessId :: string
  sessStartTs :: int
  sessEndTs :: "int option"

record segment =
  segId :: string
  sessionId :: string
  topicId :: "string option"
  subtopicId :: "string option"
  startTs :: int
  endTs :: "int option"

text \<open>
  JavaScript truthiness.  \<^verbatim>\<open>seg.endTs || now\<close> yields \<open>now\<close> when the stored value is
  \<^verbatim>\<open>null\<close> and also when it is the number 0; \<^verbatim>\<open>!s.endTs\<close> holds in the same two cases;
  a string is falsy exactly when it is \<^verbatim>\<open>null\<close> or empty.
\<close>

definition falsyTs :: "int option \<Rightarrow> bool" where
  "falsyTs e = (case e of None \<Rightarrow> True | Some t \<Rightarrow> t = 0)"

definition orNow :: "int option \<Rightarrow> int \<Rightarrow> int" where
  "orNow e now = (case e of None \<Rightarrow> now | Some t \<Rightarrow> if t = 0 then now else t)"

definition truthy :: "string option \<Rightarrow> bool" where
  "truthy x = (case x of None \<Rightarrow> False | Some s \<Rightarrow> s \<noteq> [])"

section \<open>Segment ledger (computeTimesFromSegments)\<close>

record times =
  allTime :: int
  todayTime :: int
  topicTime :: int
  subtopicTime :: int

text \<open>
  The first loop of \<^verbatim>\<open>computeTimesFromSegments\<close>; the accumulator is the pair
  \<open>(allTime, todayTime)\<close>.  \<open>startOfToday\<close> is the value of \<^verbatim>\<open>getStartOfToday()\<close>, which the
  source reads from the local clock at the call.
\<close>

fun totalsLoop :: "int \<Rightarrow> int \<Rightarrow> segment list \<Rightarrow> int \<times> int \<Rightarrow> int \<times> int" where
  "totalsLoop startOfToday now [] acc = acc"
| "totalsLoop startOfToday now (seg # rest) (allT, todayT) =
     (let e = orNow (endTs seg) now;
          duration = e - startTs seg;
          allT' = allT + duration;
          todayT' = (if e > startOfToday
                     then todayT + (e - max (startTs seg) startOfToday)
                     else todayT)
      in totalsLoop startOfToday now rest (allT', todayT'))"

text \<open>The second loop; the accumulator is \<open>(topicTime, subtopicTime)\<close>.\<close>

fun topicLoop ::
  "int \<Rightarrow> string option \<Rightarrow> string option \<Rightarrow> segment list \<Rightarrow> int \<times> int \<Rightarrow> int \<times> int" where
  "topicLoop now curTopic curSub [] acc = acc"
| "topicLoop now curTopic curSub (seg # rest) (topicT, subT) =
     (let e = orNow (endTs seg) now;
          duration = e - startTs seg;
          topicT' = (if topicId seg = curTopic \<and> curTopic \<noteq> None
                     then topicT + duration else topicT);
          subT' = (if subtopicId seg = curSub \<and> curSub \<noteq> None
                   then subT + duration else subT)
      in topicLoop now curTopic curSub rest (topicT', subT'))"

definition computeTimesFromSegments ::
  "int \<Rightarrow> segment list \<Rightarrow> int \<Rightarrow> string option \<Rightarrow> string option \<Rightarrow> segment list \<Rightarrow> times" where
  "computeTimesFromSegments startOfToday segs now currentTopic currentSubtopic sessionSegs =
     (let (allT, todayT) = totalsLoop startOfToday now segs (0, 0);
          (topicT, subT) = topicLoop now currentTopic currentSubtopic sessionSegs (0, 0)
      in \<lparr>allTime = allT, todayTime = todayT, topicTime = topicT, subtopicTime = subT\<rparr>)"

text \<open>
  The wording of the specification, for comparison: the end of a segment is
  \<^verbatim>\<open>endTs ?? now\<close>, and a segment counts for today with the length of the intersection of
  \<open>[startTs, endTs ?? now]\<close> and \<open>[startOfToday, now]\<close>.
\<close>

definition specEnd :: "segment \<Rightarrow> int \<Rightarrow> int" where
  "specEnd seg now = (case endTs seg of None \<Rightarrow> now | Some t \<Rightarrow> t)"

definition specOverlapToday :: "int \<Rightarrow> int \<Rightarrow> segment \<Rightarrow> int" where
  "specOverlapToday startOfToday now seg =
     max 0 (min (specEnd seg now) now - max (startTs seg) startOfToday)"

text \<open>Per-segment contributions, used to state the loops as sums.\<close>

definition segDuration :: "int \<Rightarrow> segment \<Rightarrow> int" where
  "segDuration now seg = orNow (endTs seg) now - startTs seg"

definition segToday :: "int \<Rightarrow> int \<Rightarrow> segment \<Rightarrow> int" where
  "segToday startOfToday now seg =
     (if orNow (endTs seg) now > startOfToday
      then orNow (endTs seg) now - max (startTs seg) startOfToday else 0)"

section \<open>Persistent store (src/lib/db.ts)\<close>

text \<open>
  The two IndexedDB object stores the engine uses, both with key path \<^verbatim>\<open>id\<close>.  An
  IndexedDB object store keeps its records sorted by key in ascending order; \<^verbatim>\<open>getAll\<close>
  returns them in that order, and an index returns the records of one index key sorted by
  primary key.  \<^verbatim>\<open>add\<close> rejects a key that is already present, \<^verbatim>\<open>put\<close> replaces the
  record stored under the key.  Every request can also be rejected by the storage layer:
  the flag \<open>ok\<close> of each operation says that the request is served.
\<close>

record store =
  sessions :: "session list"
  segmentStore :: "segment list"

datatype error = StorageError | ConstraintError

definition putRec :: "('a \<Rightarrow> string) \<Rightarrow> 'a \<Rightarrow> 'a list \<Rightarrow> 'a list" where
  "putRec key r xs =
     (if key r \<in> set (map key xs) then map (\<lambda>x. if key x = key r then r else x) xs
      else insort_key key r xs)"

definition initDB :: "bool \<Rightarrow> error + unit" where
  "initDB ok = (if ok then Inr () else Inl StorageError)"

definition createSession :: "bool \<Rightarrow> int \<Rightarrow> string \<Rightarrow> store \<Rightarrow> error + (session \<times> store)" where
  "createSession ok now newId d =
     (let session = \<lparr>sessId = newId, sessStartTs = now, sessEndTs = None\<rparr>
      in if \<not> ok then Inl StorageError
         else if newId \<in> set (map sessId (sessions d)) then Inl ConstraintError
         else Inr (session, d\<lparr>sessions := insort_key sessId session (sessions d)\<rparr>))"

definition getUnclosedSession :: "bool \<Rightarrow> store \<Rightarrow> error + session option" where
  "getUnclosedSession ok d =
     (if \<not> ok then Inl StorageError
      else Inr (find (\<lambda>s. falsyTs (sessEndTs s)) (sessions d)))"

definition getSegmentsBySession :: "bool \<Rightarrow> string \<Rightarrow> store \<Rightarrow> error + segment list" where
  "getSegmentsBySession ok sid d =
     (if \<not> ok then Inl StorageError
      else Inr (filter (\<lambda>g. sessionId g = sid) (segmentStore d)))"

definition getOpenSegment :: "bool \<Rightarrow> string \<Rightarrow> store \<Rightarrow> error + segment option" where
  "getOpenSegment ok sid d =
     (case getSegmentsBySession ok sid d of
        Inl err \<Rightarrow> Inl err
      | Inr segs \<Rightarrow> Inr (find (\<lambda>s. falsyTs (endTs s)) segs))"

definition endSession :: "bool \<Rightarrow> int \<Rightarrow> string \<Rightarrow> store \<Rightarrow> error + store" where
  "endSession ok now i d =
     (if \<not> ok then Inl StorageError
      else case find (\<lambda>s. sessId s = i) (sessions d) of
             None \<Rightarrow> Inr d
           | Some s \<Rightarrow> Inr (d\<lparr>sessions := putRec sessId (s\<lparr>sessEndTs := Some now\<rparr>) (sessions d)\<rparr>))"

definition openSegment ::
  "bool \<Rightarrow> int \<Rightarrow> string \<Rightarrow> string \<Rightarrow> string option \<Rightarrow> string option \<Rightarrow> store
     \<Rightarrow> error + (segment \<times> store)" where
  "openSegment ok now newId sid tid subid d =
     (let segment = \<lparr>segId = newId, sessionId = sid, topicId = tid, subtopicId = subid,
                      startTs = now, endTs = None\<rparr>
      in if \<not> ok then Inl StorageError
         else if newId \<in> set (map segId (segmentStore d)) then Inl ConstraintError
         else Inr (segment, d\<lparr>segmentStore := insort_key segId segment (segmentStore d)\<rparr>))"

definition closeSegment :: "bool \<Rightarrow> int \<Rightarrow> string \<Rightarrow> store \<Rightarrow> error + store" where
  "closeSegment ok now i d =
     (if \<not> ok then Inl StorageError
      else case find (\<lambda>g. segId g = i) (segmentStore d) of
             None \<Rightarrow> Inr d
           | Some g \<Rightarrow>
               if falsyTs (endTs g)
               then Inr (d\<lparr>segmentStore := putRec segId (g\<lparr>endTs := Some now\<rparr>) (segmentStore d)\<rparr>)
               else Inr d)"

definition getAllSegments :: "bool \<Rightarrow> store \<Rightarrow> error + segment list" where
  "getAllSegments ok d = (if \<not> ok then Inl StorageError else Inr (segmentStore d))"

section \<open>Timer engine (useStudyTimer)\<close>

datatype timerState = Idle | Running | Paused

text \<open>
  The hook's state and refs.  A state variable and the ref that mirrors it are one field
  (\<open>segments\<close>, \<open>allSegments\<close>, \<open>currentTopicId\<close>, \<open>currentSubtopicId\<close>); the hook's
  \<^verbatim>\<open>sessionId\<close> is \<open>curSessionId\<close>; \<open>animationFrameRef\<close> holds whether a frame
  callback is scheduled (the handle is not \<^verbatim>\<open>null\<close>).
\<close>

record timer =
  state :: timerState
  curSessionId :: "string option"
  currentTopicId :: "string option"
  currentSubtopicId :: "string option"
  segments :: "segment list"
  allSegments :: "segment list"
  stTodayTime :: int
  stAllTimeTotal :: int
  stTopicTime :: int
  stSubtopicTime :: int
  isInitialized :: bool
  historyRefreshTrigger :: nat
  currentSegmentIdRef :: "string option"
  animationFrameRef :: bool
  lastUpdateRef :: int
  isRunningRef :: bool

definition initialTimer :: "int \<Rightarrow> timer" where
  "initialTimer t =
     \<lparr>state = Idle, curSessionId = None, currentTopicId = None, currentSubtopicId = None,
      segments = [], allSegments = [], stTodayTime = 0, stAllTimeTotal = 0, stTopicTime = 0,
      stSubtopicTime = 0, isInitialized = False, historyRefreshTrigger = 0,
      currentSegmentIdRef = None, animationFrameRef = False, lastUpdateRef = t,
      isRunningRef = False\<rparr>"

type_synonym world = "timer \<times> store"

text \<open>
  What one transition reads from its environment: the clock (one instant for the whole
  transition), the local midnight \<^verbatim>\<open>getStartOfToday()\<close>, the identifiers produced by
  \<^verbatim>\<open>generateId()\<close> for the session and the segment it may create, and the storage call
  (counted from 0 in the order the transition awaits them) that is rejected, if any.
  A rejected call throws out of the \<^verbatim>\<open>async\<close> function: the state updates made before
  it stay, those after it are not made.
\<close>

record env =
  dateNow :: int
  todayStart :: int
  newSessionId :: string
  newSegmentId :: string
  failAt :: "nat option"

definition served :: "env \<Rightarrow> nat \<Rightarrow> bool" where
  "served e k = (failAt e \<noteq> Some k)"

datatype outcome = Done | Failed error

definition truthyId :: "string option \<Rightarrow> string option" where
  "truthyId x = (if truthy x then x else None)"

definition refreshSegments :: "env \<Rightarrow> nat \<Rightarrow> world \<Rightarrow> world \<times> outcome" where
  "refreshSegments e k w =
     (case w of (m, d) \<Rightarrow>
      (case truthyId (curSessionId m) of
         Some sid \<Rightarrow>
           (case getSegmentsBySession (served e k) sid d of
              Inl err \<Rightarrow> ((m, d), Failed err)
            | Inr segs \<Rightarrow>
                (case getAllSegments (served e (Suc k)) d of
                   Inl err \<Rightarrow> ((m\<lparr>segments := segs\<rparr>, d), Failed err)
                 | Inr allSegs \<Rightarrow>
                     ((m\<lparr>segments := segs, allSegments := allSegs,
                         historyRefreshTrigger := historyRefreshTrigger m + 1\<rparr>, d), Done)))
       | None \<Rightarrow>
           (case getAllSegments (served e k) d of
              Inl err \<Rightarrow> ((m, d), Failed err)
            | Inr allSegs \<Rightarrow>
                ((m\<lparr>allSegments := allSegs,
                    historyRefreshTrigger := historyRefreshTrigger m + 1\<rparr>, d), Done))))"

definition startLoop :: "env \<Rightarrow> timer \<Rightarrow> timer" where
  "startLoop e m =
     m\<lparr>state := Running, isRunningRef := True, lastUpdateRef := dateNow e, animationFrameRef := True\<rparr>"

definition stopLoop :: "timer \<Rightarrow> timer" where
  "stopLoop m = m\<lparr>isRunningRef := False, animationFrameRef := False\<rparr>"

definition startSession :: "env \<Rightarrow> world \<Rightarrow> world \<times> outcome" where
  "startSession e w =
     (case w of (m, d) \<Rightarrow>
      (case createSession (served e 0) (dateNow e) (newSessionId e) d of
         Inl err \<Rightarrow> ((m, d), Failed err)
       | Inr (session, d1) \<Rightarrow>
           (let m1 = m\<lparr>curSessionId := Some (sessId session)\<rparr> in
            case openSegment (served e 1) (dateNow e) (newSegmentId e) (sessId session) None None d1 of
              Inl err \<Rightarrow> ((m1, d1), Failed err)
            | Inr (segment, d2) \<Rightarrow>
                ((startLoop e (m1\<lparr>currentSegmentIdRef := Some (segId segment),
                                  segments := [segment],
                                  allSegments := allSegments m @ [segment]\<rparr>), d2), Done))))"

definition pauseSession :: "env \<Rightarrow> world \<Rightarrow> world \<times> outcome" where
  "pauseSession e w =
     (case w of (m, d) \<Rightarrow>
      (let m0 = stopLoop m in
       case truthyId (currentSegmentIdRef m0) of
         Some cur \<Rightarrow>
           (case closeSegment (served e 0) (dateNow e) cur d of
              Inl err \<Rightarrow> ((m0, d), Failed err)
            | Inr d1 \<Rightarrow>
                (case refreshSegments e 1 (m0\<lparr>currentSegmentIdRef := None\<rparr>, d1) of
                   (w2, Failed err) \<Rightarrow> (w2, Failed err)
                 | ((m2, d2), Done) \<Rightarrow> ((m2\<lparr>state := Paused\<rparr>, d2), Done)))
       | None \<Rightarrow> ((m0\<lparr>state := Paused\<rparr>, d), Done)))"

definition resumeSession :: "env \<Rightarrow> world \<Rightarrow> world \<times> outcome" where
  "resumeSession e w =
     (case w of (m, d) \<Rightarrow>
      (case truthyId (curSessionId m) of
         Some sid \<Rightarrow>
           (case openSegment (served e 0) (dateNow e) (newSegmentId e) sid
                   (currentTopicId m) (currentSubtopicId m) d of
              Inl err \<Rightarrow> ((m, d), Failed err)
            | Inr (segment, d1) \<Rightarrow>
                (case refreshSegments e 1 (m\<lparr>currentSegmentIdRef := Some (segId segment)\<rparr>, d1) of
                   (w2, Failed err) \<Rightarrow> (w2, Failed err)
                 | ((m2, d2), Done) \<Rightarrow> ((startLoop e m2, d2), Done)))
       | None \<Rightarrow> ((startLoop e m, d), Done)))"

text \<open>
  \<^verbatim>\<open>if (currentSegmentIdRef.current) await closeSegment(...)\<close>: the store after the call
  and the number of the next storage call.
\<close>

definition closeCurrent :: "env \<Rightarrow> nat \<Rightarrow> timer \<Rightarrow> store \<Rightarrow> error + (store \<times> nat)" where
  "closeCurrent e k m d =
     (case truthyId (currentSegmentIdRef m) of
        Some cur \<Rightarrow>
          (case closeSegment (served e k) (dateNow e) cur d of
             Inl err \<Rightarrow> Inl err
           | Inr d1 \<Rightarrow> Inr (d1, Suc k))
      | None \<Rightarrow> Inr (d, k))"

definition endCurrentSession :: "env \<Rightarrow> world \<Rightarrow> world \<times> outcome" where
  "endCurrentSession e w =
     (case w of (m, d) \<Rightarrow>
      (let m0 = stopLoop m in
       case closeCurrent e 0 m0 d of
         Inl err \<Rightarrow> ((m0, d), Failed err)
       | Inr (d1, k1) \<Rightarrow>
           (let m1 = (if truthy (currentSegmentIdRef m0)
                      then m0\<lparr>currentSegmentIdRef := None\<rparr> else m0) in
            case (case truthyId (curSessionId m) of
                    Some sid \<Rightarrow>
                      (case endSession (served e k1) (dateNow e) sid d1 of
                         Inl err \<Rightarrow> Inl err
                       | Inr d2 \<Rightarrow> Inr (d2, Suc k1))
                  | None \<Rightarrow> Inr (d1, k1)) of
              Inl err \<Rightarrow> ((m1, d1), Failed err)
            | Inr (d2, k2) \<Rightarrow>
                (case getAllSegments (served e k2) d2 of
                   Inl err \<Rightarrow> ((m1, d2), Failed err)
                 | Inr allSegs \<Rightarrow>
                     (let times = computeTimesFromSegments (todayStart e) allSegs (dateNow e)
                                    None None []
                      in ((m1\<lparr>allSegments := allSegs,
                               stAllTimeTotal := allTime times,
                               stTodayTime := todayTime times,
                               curSessionId := None,
                               currentTopicId := None,
                               currentSubtopicId := None,
                               segments := [],
                               stTopicTime := 0,
                               stSubtopicTime := 0,
                               state := Idle,
                               historyRefreshTrigger := historyRefreshTrigger m1 + 1\<rparr>, d2),
                          Done))))))"

text \<open>
  The body shared by \<^verbatim>\<open>setTopic\<close>, \<^verbatim>\<open>setSubtopic\<close> and the running branch of
  \<^verbatim>\<open>resumeWithContext\<close>: close the current segment if there is one, open a segment with
  the given tags, record its id.  The result is the world before \<^verbatim>\<open>refreshSegments\<close> and
  the number of the next storage call.
\<close>

definition switchSegment ::
  "env \<Rightarrow> string \<Rightarrow> string option \<Rightarrow> string option \<Rightarrow> world \<Rightarrow> world \<times> outcome \<times> nat" where
  "switchSegment e sid tid subid w =
     (case w of (m, d) \<Rightarrow>
      (case closeCurrent e 0 m d of
         Inl err \<Rightarrow> ((m, d), Failed err, 0)
       | Inr (d1, k1) \<Rightarrow>
           (case openSegment (served e k1) (dateNow e) (newSegmentId e) sid tid subid d1 of
              Inl err \<Rightarrow> ((m, d1), Failed err, k1)
            | Inr (segment, d2) \<Rightarrow>
                ((m\<lparr>currentSegmentIdRef := Some (segId segment)\<rparr>, d2), Done, Suc k1))))"

definition setTopic :: "env \<Rightarrow> string option \<Rightarrow> world \<Rightarrow> world \<times> outcome" where
  "setTopic e tid w =
     (case w of (m, d) \<Rightarrow>
      (let finish = (\<lambda>m'. m'\<lparr>currentTopicId := tid, currentSubtopicId := None\<rparr>) in
       if state m = Running \<and> truthy (curSessionId m)
       then (case switchSegment e (the (curSessionId m)) tid None (m, d) of
               (w1, Failed err, k) \<Rightarrow> (w1, Failed err)
             | (w1, Done, k) \<Rightarrow>
                 (case refreshSegments e k w1 of
                    (w2, Failed err) \<Rightarrow> (w2, Failed err)
                  | ((m2, d2), Done) \<Rightarrow> ((finish m2, d2), Done)))
       else ((finish m, d), Done)))"

definition setSubtopic :: "env \<Rightarrow> string option \<Rightarrow> world \<Rightarrow> world \<times> outcome" where
  "setSubtopic e subid w =
     (case w of (m, d) \<Rightarrow>
      (let finish = (\<lambda>m'. m'\<lparr>currentSubtopicId := subid\<rparr>) in
       if state m = Running \<and> truthy (curSessionId m)
       then (case switchSegment e (the (curSessionId m)) (currentTopicId m) subid (m, d) of
               (w1, Failed err, k) \<Rightarrow> (w1, Failed err)
             | (w1, Done, k) \<Rightarrow>
                 (case refreshSegments e k w1 of
                    (w2, Failed err) \<Rightarrow> (w2, Failed err)
                  | ((m2, d2), Done) \<Rightarrow> ((finish m2, d2), Done)))
       else ((finish m, d), Done)))"

definition resumeWithContext ::
  "env \<Rightarrow> string option \<Rightarrow> string option \<Rightarrow> world \<Rightarrow> world \<times> outcome" where
  "resumeWithContext e tid subid w =
     (case w of (m, d) \<Rightarrow>
      (let setContext = (\<lambda>m'. m'\<lparr>currentTopicId := tid, currentSubtopicId := subid\<rparr>) in
       if state m = Idle then
         (case createSession (served e 0) (dateNow e) (newSessionId e) d of
            Inl err \<Rightarrow> ((m, d), Failed err)
          | Inr (session, d1) \<Rightarrow>
              (let m1 = m\<lparr>curSessionId := Some (sessId session)\<rparr> in
               case openSegment (served e 1) (dateNow e) (newSegmentId e) (sessId session) tid subid d1 of
                 Inl err \<Rightarrow> ((m1, d1), Failed err)
               | Inr (segment, d2) \<Rightarrow>
                   (let m2 = setContext (m1\<lparr>currentSegmentIdRef := Some (segId segment),
                                              segments := [segment],
                                              allSegments := allSegments m @ [segment]\<rparr>);
                        m3 = startLoop e m2
                    in ((m3\<lparr>historyRefreshTrigger := historyRefreshTrigger m3 + 1\<rparr>, d2),
                        Done))))
       else if state m = Paused \<and> truthy (curSessionId m) then
         (case openSegment (served e 0) (dateNow e) (newSegmentId e) (the (curSessionId m)) tid subid d of
            Inl err \<Rightarrow> ((m, d), Failed err)
          | Inr (segment, d1) \<Rightarrow>
              (case refreshSegments e 1
                      (setContext (m\<lparr>currentSegmentIdRef := Some (segId segment)\<rparr>), d1) of
                 (w2, Failed err) \<Rightarrow> (w2, Failed err)
               | ((m2, d2), Done) \<Rightarrow> ((startLoop e m2, d2), Done)))
       else if state m = Running \<and> truthy (curSessionId m) then
         (case switchSegment e (the (curSessionId m)) tid subid (m, d) of
            (w1, Failed err, k) \<Rightarrow> (w1, Failed err)
          | ((m1, d1), Done, k) \<Rightarrow> refreshSegments e k (setContext m1, d1))
       else ((m, d), Done)))"


text \<open>
  \<^verbatim>\<open>sessionSegments[sessionSegments.length - 1]\<close>, which is \<^verbatim>\<open>undefined\<close> for an empty
  array.
\<close>

definition lastElem :: "'a list \<Rightarrow> 'a option" where
  "lastElem xs = (if xs = [] then None else Some (last xs))"

definition initAndRecover :: "env \<Rightarrow> world \<Rightarrow> world \<times> outcome" where
  "initAndRecover e w =
     (case w of (m, d) \<Rightarrow>
      (case initDB (served e 0) of
         Inl err \<Rightarrow> ((m, d), Failed err)
       | Inr u \<Rightarrow>
      (case getAllSegments (served e 1) d of
         Inl err \<Rightarrow> ((m, d), Failed err)
       | Inr historicalSegments \<Rightarrow>
      (let times = computeTimesFromSegments (todayStart e) historicalSegments (dateNow e)
                     None None [];
           m1 = m\<lparr>allSegments := historicalSegments,
                  stAllTimeTotal := allTime times,
                  stTodayTime := todayTime times\<rparr>
       in
      (case getUnclosedSession (served e 2) d of
         Inl err \<Rightarrow> ((m1, d), Failed err)
       | Inr None \<Rightarrow> ((m1\<lparr>isInitialized := True\<rparr>, d), Done)
       | Inr (Some unclosedSession) \<Rightarrow>
      (let m2 = m1\<lparr>curSessionId := Some (sessId unclosedSession)\<rparr> in
      (case getSegmentsBySession (served e 3) (sessId unclosedSession) d of
         Inl err \<Rightarrow> ((m2, d), Failed err)
       | Inr sessionSegments \<Rightarrow>
      (let m3 = m2\<lparr>segments := sessionSegments\<rparr> in
      (case getOpenSegment (served e 4) (sessId unclosedSession) d of
         Inl err \<Rightarrow> ((m3, d), Failed err)
       | Inr (Some openSeg) \<Rightarrow>
           ((m3\<lparr>currentSegmentIdRef := Some (segId openSeg),
                currentTopicId := topicId openSeg,
                currentSubtopicId := subtopicId openSeg,
                state := Running,
                isRunningRef := True,
                animationFrameRef := True,
                isInitialized := True\<rparr>, d), Done)
       | Inr None \<Rightarrow>
           (let m4 = (case lastElem sessionSegments of
                        Some lastSegment \<Rightarrow>
                          m3\<lparr>currentTopicId := topicId lastSegment,
                             currentSubtopicId := subtopicId lastSegment\<rparr>
                      | None \<Rightarrow> m3)
            in ((m4\<lparr>state := Paused, isInitialized := True\<rparr>, d), Done)))))))))))"

datatype action =
    StartSession
  | PauseSession
  | ResumeSession
  | EndCurrentSession
  | SetTopic "string option"
  | SetSubtopic "string option"
  | ResumeWithContext "string option" "string option"

fun step :: "action \<Rightarrow> env \<Rightarrow> world \<Rightarrow> world \<times> outcome" where
  "step StartSession e w = startSession e w"
| "step PauseSession e w = pauseSession e w"
| "step ResumeSession e w = resumeSession e w"
| "step EndCurrentSession e w = endCurrentSession e w"
| "step (SetTopic tid) e w = setTopic e tid w"
| "step (SetSubtopic subid) e w = setSubtopic e subid w"
| "step (ResumeWithContext tid subid) e w = resumeWithContext e tid subid w"

text \<open>A sequence of calls, each awaited before the next; it stops at the first rejection.\<close>

fun run :: "(action \<times> env) list \<Rightarrow> world \<Rightarrow> world \<times> outcome" where
  "run [] w = (w, Done)"
| "run ((a, e) # rest) w =
     (case step a e w of
        (w', Done) \<Rightarrow> run rest w'
      | (w', Failed err) \<Rightarrow> (w', Failed err))"


section \<open>Pomodoro overlay (usePomodoro)\<close>

record pomodoroSettings =
  workDuration :: int
  shortBreakDuration :: int
  longBreakDuration :: int
  sessionsBeforeLongBreak :: int

datatype pomodoroMode = Work | Break

record pomodoroState =
  isActive :: bool
  mode :: pomodoroMode
  currentSession :: int
  timeRemaining :: int
  isBreakLong :: bool

text \<open>The item kept in \<^verbatim>\<open>localStorage\<close> under \<^verbatim>\<open>POMODORO_STATE_KEY\<close>.\<close>

record snapshot =
  snapState :: pomodoroState
  snapIsPaused :: bool
  snapLastTick :: int
  savedAt :: int

datatype callback = WorkSessionComplete | BreakComplete

text \<open>
  The hook's state and refs.  \<open>pomState\<close> is the value React holds for \<^verbatim>\<open>state\<close>: what
  \<^verbatim>\<open>setState\<close> has last written, and what an updater \<^verbatim>\<open>setState(prev => ...)\<close> receives.
  \<open>stateRef\<close> is \<^verbatim>\<open>stateRef.current\<close>: only the effect that follows a render writes it, so
  it is the state of the last render, which is also the \<^verbatim>\<open>state\<close> that the handlers and
  effects registered at that render read.  \<open>storedState\<close> is the \<^verbatim>\<open>localStorage\<close> item,
  \<open>callbackLog\<close> the calls made to \<^verbatim>\<open>onWorkSessionComplete\<close> and \<^verbatim>\<open>onBreakComplete\<close> in
  order, and \<open>pendingPhase\<close> the number of \<^verbatim>\<open>setTimeout(startNextPhase, 0)\<close> calls that
  have not run yet.
\<close>

record pomodoro =
  settings :: pomodoroSettings
  pomState :: pomodoroState
  stateRef :: pomodoroState
  isPaused :: bool
  lastTickRef :: int
  pomIsRunningRef :: bool
  pomAnimationFrameRef :: bool
  storedState :: "snapshot option"
  callbackLog :: "callback list"
  pendingPhase :: nat

definition savePomodoroState :: "pomodoroState \<Rightarrow> bool \<Rightarrow> int \<Rightarrow> int \<Rightarrow> snapshot option" where
  "savePomodoroState st paused lastTick now =
     Some \<lparr>snapState = st, snapIsPaused = paused, snapLastTick = lastTick, savedAt = now\<rparr>"

text \<open>The value returned and the item left in storage.\<close>

definition loadPomodoroState :: "int \<Rightarrow> snapshot option \<Rightarrow> snapshot option \<times> snapshot option" where
  "loadPomodoroState now stored =
     (case stored of
        None \<Rightarrow> (None, stored)
      | Some data \<Rightarrow>
          if now - savedAt data > 24 * 60 * 60 * 1000 then (None, None)
          else (Some data, stored))"

definition freshState :: "pomodoroSettings \<Rightarrow> pomodoroState" where
  "freshState s =
     \<lparr>isActive = False, mode = Work, currentSession = 1,
      timeRemaining = workDuration s * 60 * 1000, isBreakLong = False\<rparr>"

text \<open>
  The initial values of the hook (\<^verbatim>\<open>useState\<close> initialisers and refs) at a page load at
  \<open>now\<close>, from the saved settings and the stored item.
\<close>

definition initPomodoro :: "int \<Rightarrow> pomodoroSettings \<Rightarrow> snapshot option \<Rightarrow> pomodoro" where
  "initPomodoro now s stored =
     (let (saved, stored1) = loadPomodoroState now stored;
          st = (case saved of
                  Some sv \<Rightarrow>
                    if isActive (snapState sv)
                    then (let elapsed = now - snapLastTick sv;
                              newTimeRemaining =
                                max 0 (timeRemaining (snapState sv)
                                       - (if snapIsPaused sv then 0 else elapsed))
                          in (snapState sv)\<lparr>timeRemaining := newTimeRemaining\<rparr>)
                    else freshState s
                | None \<Rightarrow> freshState s);
          (saved2, stored2) = loadPomodoroState now stored1;
          paused = (case saved2 of Some sv \<Rightarrow> snapIsPaused sv | None \<Rightarrow> False)
      in \<lparr>settings = s, pomState = st, stateRef = st, isPaused = paused, lastTickRef = now,
          pomIsRunningRef = (isActive st \<and> \<not> paused), pomAnimationFrameRef = False,
          storedState = stored2, callbackLog = [], pendingPhase = 0\<rparr>)"

definition startNextPhase :: "pomodoro \<Rightarrow> pomodoro" where
  "startNextPhase p =
     (let s = settings p; currentState = stateRef p in
      if mode currentState = Work then
        (let isLongBreak = (currentSession currentState \<ge> sessionsBeforeLongBreak s);
             breakDuration = (if isLongBreak then longBreakDuration s else shortBreakDuration s)
         in p\<lparr>callbackLog := callbackLog p @ [WorkSessionComplete],
              pomState := \<lparr>isActive = True, mode = Break,
                            currentSession = currentSession currentState,
                            timeRemaining = breakDuration * 60 * 1000,
                            isBreakLong = isLongBreak\<rparr>\<rparr>)
      else
        (let nextSession = (if isBreakLong currentState then 1
                            else currentSession currentState + 1)
         in p\<lparr>callbackLog := callbackLog p @ [BreakComplete],
              pomState := \<lparr>isActive = True, mode = Work,
                            currentSession = nextSession,
                            timeRemaining = workDuration s * 60 * 1000,
                            isBreakLong = False\<rparr>\<rparr>))"

text \<open>
  One run of the frame callback \<^verbatim>\<open>tick\<close>: its updater receives \<open>pomState\<close>, and when nothing
  remains it calls \<^verbatim>\<open>setTimeout(startNextPhase, 0)\<close> and returns the state it received.
\<close>

definition pomTick :: "int \<Rightarrow> pomodoro \<Rightarrow> pomodoro" where
  "pomTick now p =
     (if \<not> pomIsRunningRef p then p
      else (let delta = now - lastTickRef p;
                p1 = p\<lparr>lastTickRef := now\<rparr>;
                newTimeRemaining = timeRemaining (pomState p1) - delta;
                p2 = (if newTimeRemaining \<le> 0
                      then p1\<lparr>pendingPhase := pendingPhase p1 + 1\<rparr>
                      else p1\<lparr>pomState := (pomState p1)\<lparr>timeRemaining := newTimeRemaining\<rparr>\<rparr>)
            in p2\<lparr>pomAnimationFrameRef := True\<rparr>))"

text \<open>
  One run of a pending timeout: \<^verbatim>\<open>startNextPhase\<close>, which reads \<^verbatim>\<open>stateRef.current\<close>.
\<close>

definition runTimeout :: "pomodoro \<Rightarrow> pomodoro" where
  "runTimeout p =
     (if pendingPhase p = 0 then p
      else startNextPhase (p\<lparr>pendingPhase := pendingPhase p - 1\<rparr>))"

definition skip :: "pomodoro \<Rightarrow> pomodoro" where
  "skip p = startNextPhase p"

text \<open>\<^verbatim>\<open>handleVisibilityChange\<close>, with \<open>hidden\<close> the value of \<^verbatim>\<open>document.hidden\<close>.\<close>

definition handleVisibilityChange :: "bool \<Rightarrow> int \<Rightarrow> pomodoro \<Rightarrow> pomodoro" where
  "handleVisibilityChange hidden now p =
     (if hidden then
        (let p1 = (if isActive (stateRef p)
                   then p\<lparr>storedState :=
                            savePomodoroState (stateRef p) (isPaused p) (lastTickRef p) now\<rparr>
                   else p)
         in p1\<lparr>pomAnimationFrameRef := False\<rparr>)
      else if pomIsRunningRef p then
        (let (saved, stored1) = loadPomodoroState now (storedState p);
             p1 = p\<lparr>storedState := stored1\<rparr>;
             p2 = (case saved of
                     Some sv \<Rightarrow>
                       if isActive (snapState sv) \<and> \<not> snapIsPaused sv
                       then (let elapsed = now - snapLastTick sv;
                                 newTimeRemaining = max 0 (timeRemaining (snapState sv) - elapsed)
                             in if newTimeRemaining \<le> 0 then startNextPhase p1
                                else p1\<lparr>pomState :=
                                          (pomState p1)\<lparr>timeRemaining := newTimeRemaining\<rparr>\<rparr>)
                       else p1
                   | None \<Rightarrow> p1)
         in p2\<lparr>lastTickRef := now, pomAnimationFrameRef := True\<rparr>)
      else p)"

definition getTotalDuration :: "pomodoroSettings \<Rightarrow> pomodoroMode \<Rightarrow> bool \<Rightarrow> int" where
  "getTotalDuration s m isLongBreak =
     (if m = Work then workDuration s * 60 * 1000
      else if isLongBreak then longBreakDuration s * 60 * 1000
      else shortBreakDuration s * 60 * 1000)"

definition pomStart :: "int \<Rightarrow> pomodoro \<Rightarrow> pomodoro" where
  "pomStart now p =
     (let newState = \<lparr>isActive = True, mode = Work, currentSession = 1,
                       timeRemaining = workDuration (settings p) * 60 * 1000,
                       isBreakLong = False\<rparr>
      in p\<lparr>pomState := newState, isPaused := False, lastTickRef := now,
           storedState := savePomodoroState newState False now now\<rparr>)"

text \<open>
  The effect that follows a change of \<^verbatim>\<open>state\<close> or \<^verbatim>\<open>isPaused\<close>, with the \<^verbatim>\<open>state\<close> of
  its render: the cleanup of its previous run cancels the frame callback, then the loop is
  started again when the overlay is active and not paused, and the state is saved.
\<close>

definition syncEffect :: "int \<Rightarrow> pomodoro \<Rightarrow> pomodoro" where
  "syncEffect now p =
     (let running = (isActive (stateRef p) \<and> \<not> isPaused p);
          p1 = p\<lparr>pomAnimationFrameRef := False, pomIsRunningRef := running\<rparr>;
          p2 = (if running then p1\<lparr>lastTickRef := now, pomAnimationFrameRef := True\<rparr> else p1)
      in if isActive (stateRef p2)
         then p2\<lparr>storedState :=
                   savePomodoroState (stateRef p2) (isPaused p2) (lastTickRef p2) now\<rparr>
         else p2)"

text \<open>
  A render at \<open>now\<close> and the effects that follow it, in the order the hook declares them:
  \<^verbatim>\<open>stateRef.current = state\<close>, then the effect above.
\<close>

definition render :: "int \<Rightarrow> pomodoro \<Rightarrow> pomodoro" where
  "render now p = syncEffect now (p\<lparr>stateRef := pomState p\<rparr>)"

text \<open>
  What the browser and React run after the page load, one at a time: a frame callback at
  an instant (only when one is requested and not cancelled), a pending timeout, a render
  with its effects at an instant.
\<close>

datatype pomEvent = Frame int | Timeout | Render int

fun pomStep :: "pomEvent \<Rightarrow> pomodoro \<Rightarrow> pomodoro" where
  "pomStep (Frame t) p = (if pomAnimationFrameRef p then pomTick t p else p)"
| "pomStep Timeout p = runTimeout p"
| "pomStep (Render t) p = render t p"

fun pomRun :: "pomEvent list \<Rightarrow> pomodoro \<Rightarrow> pomodoro" where
  "pomRun [] p = p"
| "pomRun (ev # es) p = pomRun es (pomStep ev p)"

text \<open>
  The frames and renders of \<open>es\<close> happen at instants that do not decrease, from \<open>lo\<close> on and
  before \<open>hi\<close>.
\<close>

fun within :: "int \<Rightarrow> int \<Rightarrow> pomEvent list \<Rightarrow> bool" where
  "within lo hi [] = True"
| "within lo hi (Frame t # es) = (lo \<le> t \<and> t < hi \<and> within t hi es)"
| "within lo hi (Render t # es) = (lo \<le> t \<and> t < hi \<and> within t hi es)"
| "within lo hi (Timeout # es) = within lo hi es"

definition DEFAULT_POMODORO_SETTINGS :: pomodoroSettings where
  "DEFAULT_POMODORO_SETTINGS =
     \<lparr>workDuration = 25, shortBreakDuration = 5, longBreakDuration = 15,
      sessionsBeforeLongBreak = 4\<rparr>"

section \<open>Concrete inputs\<close>

definition mkSeg ::
  "string \<Rightarrow> string \<Rightarrow> string option \<Rightarrow> string option \<Rightarrow> int \<Rightarrow> int option \<Rightarrow> segment" where
  "mkSeg i sid tid subid s e =
     \<lparr>segId = i, sessionId = sid, topicId = tid, subtopicId = subid, startTs = s, endTs = e\<rparr>"

definition mkEnv :: "int \<Rightarrow> int \<Rightarrow> string \<Rightarrow> string \<Rightarrow> env" where
  "mkEnv t midnight sid gid =
     \<lparr>dateNow = t, todayStart = midnight, newSessionId = sid, newSegmentId = gid, failAt = None\<rparr>"

definition emptyStore :: store where
  "emptyStore = \<lparr>sessions = [], segmentStore = []\<rparr>"

text \<open>
  Scenario D up to the moment the tab is hidden: a page load at 0 with nothing stored,
  \<^verbatim>\<open>start\<close> at 0, the countdown run to minute 20, each followed by its render, and the
  tab hidden at minute 20.
\<close>

definition hiddenAtMinute20 :: pomodoro where
  "hiddenAtMinute20 =
     handleVisibilityChange True 1200000
       (render 1200000
         (pomTick 1200000
           (render 0
             (pomStart 0
               (render 0 (initPomodoro 0 DEFAULT_POMODORO_SETTINGS None))))))"

text \<open>A running work phase in session 4 with one second left, as rendered.\<close>

definition workAtSession4 :: pomodoro where
  "workAtSession4 =
     \<lparr>settings = DEFAULT_POMODORO_SETTINGS,
      pomState = \<lparr>isActive = True, mode = Work, currentSession = 4, timeRemaining = 1000,
                   isBreakLong = False\<rparr>,
      stateRef = \<lparr>isActive = True, mode = Work, currentSession = 4, timeRemaining = 1000,
                   isBreakLong = False\<rparr>,
      isPaused = False, lastTickRef = 0, pomIsRunningRef = True, pomAnimationFrameRef = True,
      storedState = None, callbackLog = [], pendingPhase = 0\<rparr>"

text \<open>The snapshot that \<open>hiddenAtMinute20\<close> leaves in storage.\<close>

definition snapAtMinute20 :: snapshot where
  "snapAtMinute20 =
     \<lparr>snapState = \<lparr>isActive = True, mode = Work, currentSession = 1, timeRemaining = 300000,
                    isBreakLong = False\<rparr>,
      snapIsPaused = False, snapLastTick = 1200000, savedAt = 1200000\<rparr>"

text \<open>A page load at minute 40 over that snapshot, with the effects of the first render.\<close>

definition reloadAtMinute40 :: pomodoro where
  "reloadAtMinute40 =
     render 2400000 (initPomodoro 2400000 DEFAULT_POMODORO_SETTINGS (Some snapAtMinute20))"

text \<open>
  What may follow the transition of Scenario D: frames 16 ms apart, the renders that follow
  them and a timeout.
\<close>

definition afterReopen :: "pomEvent list" where
  "afterReopen =
     [Frame 2400016, Render 2400016, Frame 2400032, Timeout, Render 2400032]"

text \<open>Two frames run before the timeouts that they schedule.\<close>

definition twoFramesFirst :: "pomEvent list" where
  "twoFramesFirst = [Frame 2400016, Frame 2400032, Timeout, Timeout]"

section \<open>Invariants of the engine\<close>

text \<open>The segments of a session whose \<open>endTs\<close> is \<^verbatim>\<open>null\<close>, as the store lists them.\<close>

definition openSegs :: "string \<Rightarrow> store \<Rightarrow> segment list" where
  "openSegs sid d = filter (\<lambda>g. sessionId g = sid \<and> endTs g = None) (segmentStore d)"

definition currentOpen :: "world \<Rightarrow> segment list" where
  "currentOpen w = (case curSessionId (fst w) of None \<Rightarrow> [] | Some sid \<Rightarrow> openSegs sid (snd w))"

text \<open>
  Of the store: keys are unique, every segment belongs to a stored session, and no session
  has two open segments.  Of the engine: when idle it has no current session; when running
  its current session is stored and has exactly one open segment, the one
  \<open>currentSegmentIdRef\<close> names; when paused its current session is stored and has no open
  segment.
\<close>

definition storeInv :: "store \<Rightarrow> bool" where
  "storeInv d =
     (distinct (map segId (segmentStore d))
      \<and> (\<forall>g \<in> set (segmentStore d). sessionId g \<in> set (map sessId (sessions d)))
      \<and> (\<forall>sid. length (openSegs sid d) \<le> 1))"

definition engineInv :: "world \<Rightarrow> bool" where
  "engineInv w =
     (case w of (m, d) \<Rightarrow>
        storeInv d
        \<and> (case state m of
             Idle \<Rightarrow> curSessionId m = None
           | Running \<Rightarrow>
               (\<exists>sid cur. curSessionId m = Some sid \<and> sid \<noteq> []
                  \<and> sid \<in> set (map sessId (sessions d))
                  \<and> currentSegmentIdRef m = Some cur \<and> cur \<noteq> []
                  \<and> map segId (openSegs sid d) = [cur])
           | Paused \<Rightarrow>
               (\<exists>sid. curSessionId m = Some sid \<and> sid \<noteq> []
                  \<and> sid \<in> set (map sessId (sessions d))
                  \<and> openSegs sid d = [])))"

text \<open>
  Calls under which the invariant above is kept: \<^verbatim>\<open>pauseSession\<close> not called when idle and
  \<^verbatim>\<open>resumeSession\<close> called only when paused; the other actions called in any state.  The
  functions themselves do not test for it, and the page does not keep to it: in Pomodoro
  mode it offers its controls by the state of the overlay, not of the engine.
\<close>

fun enabled :: "action \<Rightarrow> timerState \<Rightarrow> bool" where
  "enabled PauseSession s = (s \<noteq> Idle)"
| "enabled ResumeSession s = (s = Paused)"
| "enabled a s = True"

text \<open>\<^verbatim>\<open>generateId()\<close> is \<^verbatim>\<open>crypto.randomUUID()\<close>: never the empty string.\<close>

definition envOk :: "env \<Rightarrow> bool" where
  "envOk e = (newSessionId e \<noteq> [] \<and> newSegmentId e \<noteq> [])"

fun guarded :: "(action \<times> env) list \<Rightarrow> world \<Rightarrow> bool" where
  "guarded [] w = True"
| "guarded ((a, e) # rest) w =
     (enabled a (state (fst w)) \<and> envOk e
      \<and> (case step a e w of
            (w', Done) \<Rightarrow> guarded rest w'
          | (w', Failed err) \<Rightarrow> True))"

text \<open>
  Scenario B with the clock at \<open>T\<close> when the session starts: start, \<^verbatim>\<open>setTopic("math")\<close>
  at the same instant, pause after 3000 ms, resume after 5000 ms, end after 9000 ms.
\<close>

definition scenarioB :: "int \<Rightarrow> (action \<times> env) list" where
  "scenarioB T =
     [(StartSession, mkEnv T 0 ''s1'' ''g1''),
      (SetTopic (Some ''math''), mkEnv T 0 ''s2'' ''g2''),
      (PauseSession, mkEnv (T + 3000) 0 ''s3'' ''g3''),
      (ResumeSession, mkEnv (T + 5000) 0 ''s4'' ''g4''),
      (EndCurrentSession, mkEnv (T + 9000) 0 ''s5'' ''g5'')]"

text \<open>
  The calls that the page (\<^verbatim>\<open>pages/Index.tsx\<close>) makes for: Start in Pomodoro mode, Pause,
  switch to Stopwatch, Resume, switch to Pomodoro, Resume.  The third call does not go
  through \<^verbatim>\<open>pomodoro.resume\<close>, so in Pomodoro mode the overlay is still paused and the page
  offers Resume again, while the engine is running.
\<close>

definition resumeTwice :: "(action \<times> env) list" where
  "resumeTwice =
     [(StartSession, mkEnv 1000 0 ''s1'' ''g1''),
      (PauseSession, mkEnv 2000 0 ''s2'' ''g2''),
      (ResumeSession, mkEnv 3000 0 ''s3'' ''g3''),
      (ResumeSession, mkEnv 4000 0 ''s4'' ''g4'')]"

text \<open>The same with \<^verbatim>\<open>resumeWithContext(null, null)\<close> as the last call.\<close>

definition resumeThenContext :: "(action \<times> env) list" where
  "resumeThenContext =
     take 3 resumeTwice @ [(ResumeWithContext None None, mkEnv 4000 0 ''s4'' ''g4'')]"

text \<open>
  \<^verbatim>\<open>resumeSession\<close> called right after \<^verbatim>\<open>startSession\<close>, and before any session was
  started.
\<close>

definition resumeWhileRunning :: "(action \<times> env) list" where
  "resumeWhileRunning =
     [(StartSession, mkEnv 5 0 ''s1'' ''g1''), (ResumeSession, mkEnv 6 0 ''s2'' ''g2'')]"

definition resumeWhileIdle :: "(action \<times> env) list" where
  "resumeWhileIdle = [(ResumeSession, mkEnv 6 0 ''s2'' ''g2'')]"

text \<open>A running session in which the subtopic \<open>algebra\<close> was selected.\<close>

definition withSubtopic :: "(action \<times> env) list" where
  "withSubtopic =
     [(StartSession, mkEnv 1000 0 ''s1'' ''g1''),
      (SetSubtopic (Some ''algebra''), mkEnv 2000 0 ''s2'' ''g2'')]"



text \<open>
  Stores with more than one unclosed session, and with segments whose ids are not in the
  order of their start times.
\<close>

definition twoUnclosed :: "(action \<times> env) list" where
  "twoUnclosed =
     [(StartSession, mkEnv 100 0 ''a'' ''g1''), (StartSession, mkEnv 200 0 ''b'' ''g2'')]"

definition pausedOnMath :: "(action \<times> env) list" where
  "pausedOnMath =
     [(StartSession, mkEnv 1000 0 ''s1'' ''g2''),
      (SetTopic (Some ''math''), mkEnv 2000 0 ''s2'' ''g1''),
      (PauseSession, mkEnv 3000 0 ''s3'' ''g3'')]"

text \<open>A page load at \<open>t\<close> over the store that a run has left.\<close>

definition reload :: "int \<Rightarrow> (action \<times> env) list \<Rightarrow> world \<times> outcome" where
  "reload t acts =
     initAndRecover (mkEnv t 0 [] [])
       (initialTimer t, snd (fst (run acts (initialTimer 0, emptyStore))))"

text \<open>
  The in-memory state that \<open>initAndRecover\<close> leaves when no storage request is rejected,
  written out by cases (see \<open>initAndRecover_served\<close>).
\<close>

definition recovered :: "env \<Rightarrow> timer \<Rightarrow> store \<Rightarrow> timer" where
  "recovered e m d =
     (let times = computeTimesFromSegments (todayStart e) (segmentStore d) (dateNow e) None None [];
          m1 = m\<lparr>allSegments := segmentStore d, stAllTimeTotal := allTime times,
                 stTodayTime := todayTime times\<rparr>
      in case find (\<lambda>s. falsyTs (sessEndTs s)) (sessions d) of
           None \<Rightarrow> m1\<lparr>isInitialized := True\<rparr>
         | Some u \<Rightarrow>
             (let segs = filter (\<lambda>g. sessionId g = sessId u) (segmentStore d);
                  m3 = m1\<lparr>curSessionId := Some (sessId u), segments := segs\<rparr>
              in case find (\<lambda>g. falsyTs (endTs g)) segs of
                   Some g \<Rightarrow>
                     m3\<lparr>currentSegmentIdRef := Some (segId g), currentTopicId := topicId g,
                        currentSubtopicId := subtopicId g, state := Running,
                        isRunningRef := True, animationFrameRef := True, isInitialized := True\<rparr>
                 | None \<Rightarrow>
                     (if segs = [] then m3
                      else m3\<lparr>currentTopicId := topicId (last segs),
                              currentSubtopicId := subtopicId (last segs)\<rparr>)
                       \<lparr>state := Paused, isInitialized := True\<rparr>))"

section \<open>Properties of the ledger\<close>

lemma totalsLoop_sum:
  "totalsLoop sod now segs (a, t) =
     (a + sum_list (map (segDuration now) segs), t + sum_list (map (segToday sod now) segs))"
  by (induction segs arbitrary: a t) (simp_all add: Let_def segDuration_def segToday_def)

lemma topicLoop_sum:
  "topicLoop now ct cs segs (a, b) =
     (a + sum_list (map (segDuration now) (filter (\<lambda>g. topicId g = ct \<and> ct \<noteq> None) segs)),
      b + sum_list (map (segDuration now) (filter (\<lambda>g. subtopicId g = cs \<and> cs \<noteq> None) segs)))"
  by (induction segs arbitrary: a b) (auto simp: Let_def segDuration_def)


lemma todayTime_sum:
  "todayTime (computeTimesFromSegments sod segs now ct cs sess) = sum_list (map (segToday sod now) segs)"
  by (simp add: computeTimesFromSegments_def totalsLoop_sum topicLoop_sum)





lemma segToday_overlap:
  assumes "endTs g \<noteq> Some 0" and "startTs g \<le> specEnd g now" and "specEnd g now \<le> now"
  shows "segToday sod now g = specOverlapToday sod now g"
proof -
  have e: "orNow (endTs g) now = specEnd g now"
    using assms(1) by (simp add: orNow_def specEnd_def split: option.splits)
  show ?thesis
    using assms(2,3) unfolding segToday_def specOverlapToday_def e by auto
qed




lemma segToday_sum_overlap:
  "(\<And>g. g \<in> set segs \<Longrightarrow>
       endTs g \<noteq> Some 0 \<and> startTs g \<le> specEnd g now \<and> specEnd g now \<le> now)
   \<Longrightarrow> sum_list (map (segToday sod now) segs) = sum_list (map (specOverlapToday sod now) segs)"
  by (induction segs) (simp_all add: segToday_overlap)

text \<open>
  C3 (as amended).  For a segment list in which every segment has
  \<open>startTs \<le> (endTs ?? now) \<le> now\<close> and no stored \<open>endTs\<close> of 0, \<open>todayTime\<close> is the sum of
  the lengths of the overlaps of \<open>[startTs, endTs ?? now]\<close> with \<open>[startOfToday, now]\<close>.  A
  segment opened ten minutes before the local midnight and still open ten minutes after it
  counts 600000 ms for today.
\<close>

theorem C3_todayTime_overlap:
  assumes "\<forall>g \<in> set segs. endTs g \<noteq> Some 0 \<and> startTs g \<le> specEnd g now \<and> specEnd g now \<le> now"
  shows "todayTime (computeTimesFromSegments sod segs now ct cs sess)
           = sum_list (map (specOverlapToday sod now) segs)
       \<and> todayTime (computeTimesFromSegments midnight
             [mkSeg i sid tid subid (midnight - 600000) None] (midnight + 600000) ct cs sess)
           = 600000"
proof -
  have "todayTime (computeTimesFromSegments sod segs now ct cs sess)
          = sum_list (map (specOverlapToday sod now) segs)"
    unfolding todayTime_sum using assms by (intro segToday_sum_overlap) blast
  moreover have "todayTime (computeTimesFromSegments midnight
             [mkSeg i sid tid subid (midnight - 600000) None] (midnight + 600000) ct cs sess)
           = 600000"
    by (simp add: todayTime_sum segToday_def mkSeg_def orNow_def)
  ultimately show ?thesis by blast
qed

text \<open>
  C3, witness: local midnight at 86400000; one segment closed before midnight, one opened
  at 23:50 and still open at 00:10.
\<close>

theorem C3_todayTime_overlap_witness:
  "todayTime (computeTimesFromSegments 86400000
      [mkSeg ''g1'' ''s1'' None None 80000000 (Some 85000000),
       mkSeg ''g2'' ''s1'' None None 85800000 None] 87000000 None None [])
     = sum_list (map (specOverlapToday 86400000 87000000)
      [mkSeg ''g1'' ''s1'' None None 80000000 (Some 85000000),
       mkSeg ''g2'' ''s1'' None None 85800000 None])
   \<and> todayTime (computeTimesFromSegments 86400000
      [mkSeg ''g1'' ''s1'' None None 80000000 (Some 85000000),
       mkSeg ''g2'' ''s1'' None None 85800000 None] 87000000 None None []) = 600000"
proof -
  have h: "\<forall>g \<in> set [mkSeg ''g1'' ''s1'' None None 80000000 (Some 85000000),
                       mkSeg ''g2'' ''s1'' None None 85800000 None].
             endTs g \<noteq> Some 0 \<and> startTs g \<le> specEnd g 87000000 \<and> specEnd g 87000000 \<le> 87000000"
    by (simp add: mkSeg_def specEnd_def)
  show ?thesis
    using C3_todayTime_overlap [OF h, of 86400000 None None "[]"]
    by (simp add: mkSeg_def specEnd_def specOverlapToday_def)
qed

text \<open>
  C3 as stated fails for a segment whose stored end is after \<open>now\<close>: with midnight 0 and
  \<open>now = 15\<close>, the segment \<open>[10, 20]\<close> overlaps \<open>[0, 15]\<close> in 5 ms, and \<open>todayTime\<close> is 10.  It
  also fails for a segment that ends before it starts: \<open>[20, 10]\<close> overlaps nothing, and
  \<open>todayTime\<close> at \<open>now = 30\<close> is \<open>- 10\<close>.
\<close>

theorem C3_counterexample:
  "todayTime (computeTimesFromSegments 0 [mkSeg ''g1'' ''s1'' None None 10 (Some 20)] 15 None None []) = 10
   \<and> sum_list (map (specOverlapToday 0 15) [mkSeg ''g1'' ''s1'' None None 10 (Some 20)]) = 5
   \<and> todayTime (computeTimesFromSegments 0 [mkSeg ''g1'' ''s1'' None None 20 (Some 10)] 30 None None []) = - 10
   \<and> sum_list (map (specOverlapToday 0 30) [mkSeg ''g1'' ''s1'' None None 20 (Some 10)]) = 0"
  by (simp add: computeTimesFromSegments_def mkSeg_def orNow_def specOverlapToday_def specEnd_def)

section \<open>Properties of the Pomodoro overlay\<close>

lemma startNextPhase_work:
  "mode (stateRef p) = Work \<Longrightarrow>
     startNextPhase p =
       p\<lparr>callbackLog := callbackLog p @ [WorkSessionComplete],
         pomState := \<lparr>isActive = True, mode = Break,
                       currentSession = currentSession (stateRef p),
                       timeRemaining =
                         (if currentSession (stateRef p) \<ge> sessionsBeforeLongBreak (settings p)
                          then longBreakDuration (settings p)
                          else shortBreakDuration (settings p)) * 60 * 1000,
                       isBreakLong =
                         (currentSession (stateRef p) \<ge> sessionsBeforeLongBreak (settings p))\<rparr>\<rparr>"
  by (simp add: startNextPhase_def Let_def)

lemma startNextPhase_break:
  "mode (stateRef p) = Break \<Longrightarrow>
     startNextPhase p =
       p\<lparr>callbackLog := callbackLog p @ [BreakComplete],
         pomState := \<lparr>isActive = True, mode = Work,
                       currentSession =
                         (if isBreakLong (stateRef p) then 1 else currentSession (stateRef p) + 1),
                       timeRemaining = workDuration (settings p) * 60 * 1000,
                       isBreakLong = False\<rparr>\<rparr>"
  by (simp add: startNextPhase_def Let_def)

lemma tick_fires:
  "pomIsRunningRef p \<Longrightarrow> timeRemaining (pomState p) - (now - lastTickRef p) \<le> 0 \<Longrightarrow>
     pomState (runTimeout (pomTick now p)) = pomState (startNextPhase p)
     \<and> callbackLog (runTimeout (pomTick now p)) = callbackLog (startNextPhase p)"
  by (simp add: pomTick_def runTimeout_def Let_def startNextPhase_def)

text \<open>
  C8.  \<open>startNextPhase\<close> reads the phase from \<^verbatim>\<open>stateRef.current\<close>, the state of the last
  render (after a render \<open>stateRef p = pomState p\<close>).  In the work phase it calls the work-complete callback and enters a break whose
  long flag is set iff the session counter has reached \<open>sessionsBeforeLongBreak\<close>, the
  counter unchanged; in a break it calls the break-complete callback and enters a work
  phase with the full work duration, the counter incremented unless the break was long,
  when it becomes 1.  \<open>skip\<close> is \<open>startNextPhase\<close>, and a tick whose countdown reaches zero
  schedules exactly that transition.
\<close>

theorem C8_phase_transition:
  "(mode (stateRef p) = Work \<longrightarrow>
      callbackLog (startNextPhase p) = callbackLog p @ [WorkSessionComplete]
      \<and> isActive (pomState (startNextPhase p))
      \<and> mode (pomState (startNextPhase p)) = Break
      \<and> isBreakLong (pomState (startNextPhase p))
           = (currentSession (stateRef p) \<ge> sessionsBeforeLongBreak (settings p))
      \<and> currentSession (pomState (startNextPhase p)) = currentSession (stateRef p))
   \<and> (mode (stateRef p) = Break \<longrightarrow>
      callbackLog (startNextPhase p) = callbackLog p @ [BreakComplete]
      \<and> isActive (pomState (startNextPhase p))
      \<and> mode (pomState (startNextPhase p)) = Work
      \<and> timeRemaining (pomState (startNextPhase p)) = workDuration (settings p) * 60 * 1000
      \<and> currentSession (pomState (startNextPhase p))
           = (if isBreakLong (stateRef p) then 1 else currentSession (stateRef p) + 1))
   \<and> skip p = startNextPhase p
   \<and> (pomIsRunningRef p \<and> timeRemaining (pomState p) - (now - lastTickRef p) \<le> 0 \<longrightarrow>
        pendingPhase (pomTick now p) = pendingPhase p + 1
        \<and> pomState (pomTick now p) = pomState p
        \<and> stateRef (pomTick now p) = stateRef p
        \<and> pomState (runTimeout (pomTick now p)) = pomState (startNextPhase p)
        \<and> callbackLog (runTimeout (pomTick now p)) = callbackLog (startNextPhase p))"
proof -
  have w: "mode (stateRef p) = Work \<longrightarrow>
      callbackLog (startNextPhase p) = callbackLog p @ [WorkSessionComplete]
      \<and> isActive (pomState (startNextPhase p))
      \<and> mode (pomState (startNextPhase p)) = Break
      \<and> isBreakLong (pomState (startNextPhase p))
           = (currentSession (stateRef p) \<ge> sessionsBeforeLongBreak (settings p))
      \<and> currentSession (pomState (startNextPhase p)) = currentSession (stateRef p)"
    by (simp add: startNextPhase_work)
  have b: "mode (stateRef p) = Break \<longrightarrow>
      callbackLog (startNextPhase p) = callbackLog p @ [BreakComplete]
      \<and> isActive (pomState (startNextPhase p))
      \<and> mode (pomState (startNextPhase p)) = Work
      \<and> timeRemaining (pomState (startNextPhase p)) = workDuration (settings p) * 60 * 1000
      \<and> currentSession (pomState (startNextPhase p))
           = (if isBreakLong (stateRef p) then 1 else currentSession (stateRef p) + 1)"
    by (simp add: startNextPhase_break)
  have t: "pomIsRunningRef p \<and> timeRemaining (pomState p) - (now - lastTickRef p) \<le> 0 \<longrightarrow>
        pendingPhase (pomTick now p) = pendingPhase p + 1
        \<and> pomState (pomTick now p) = pomState p
        \<and> stateRef (pomTick now p) = stateRef p
        \<and> pomState (runTimeout (pomTick now p)) = pomState (startNextPhase p)
        \<and> callbackLog (runTimeout (pomTick now p)) = callbackLog (startNextPhase p)"
    using tick_fires [of p now] by (simp add: pomTick_def Let_def)
  show ?thesis using w b t by (simp add: skip_def)
qed

text \<open>
  C8, witness: a rendered work phase of session 4 with threshold 4 gives a long break, and
  after the render that follows the long break gives a work phase of session 1 with 25
  minutes.
\<close>

theorem C8_phase_transition_witness:
  "mode (stateRef workAtSession4) = Work
   \<and> stateRef workAtSession4 = pomState workAtSession4
   \<and> callbackLog (startNextPhase workAtSession4) = [WorkSessionComplete]
   \<and> isBreakLong (pomState (startNextPhase workAtSession4))
   \<and> currentSession (pomState (startNextPhase workAtSession4)) = 4
   \<and> mode (pomState (startNextPhase workAtSession4)) = Break
   \<and> mode (stateRef (render 1000 (startNextPhase workAtSession4))) = Break
   \<and> callbackLog (startNextPhase (render 1000 (startNextPhase workAtSession4)))
        = [WorkSessionComplete, BreakComplete]
   \<and> mode (pomState (startNextPhase (render 1000 (startNextPhase workAtSession4)))) = Work
   \<and> currentSession (pomState (startNextPhase (render 1000 (startNextPhase workAtSession4)))) = 1
   \<and> timeRemaining (pomState (startNextPhase (render 1000 (startNextPhase workAtSession4))))
        = 1500000
   \<and> pomIsRunningRef workAtSession4
   \<and> timeRemaining (pomState workAtSession4) - (1000 - lastTickRef workAtSession4) \<le> 0
   \<and> callbackLog (runTimeout (pomTick 1000 workAtSession4)) = [WorkSessionComplete]"
proof -
  let ?q = "render 1000 (startNextPhase workAtSession4)"
  have m: "mode (stateRef workAtSession4) = Work"
    by (simp add: workAtSession4_def)
  have m': "stateRef workAtSession4 = pomState workAtSession4"
    by (simp add: workAtSession4_def)
  have r: "pomIsRunningRef workAtSession4
           \<and> timeRemaining (pomState workAtSession4) - (1000 - lastTickRef workAtSession4) \<le> 0"
    by (simp add: workAtSession4_def)
  have s: "sessionsBeforeLongBreak (settings workAtSession4) = 4
           \<and> currentSession (stateRef workAtSession4) = 4
           \<and> callbackLog workAtSession4 = []"
    by (simp add: workAtSession4_def DEFAULT_POMODORO_SETTINGS_def)
  have a: "callbackLog (startNextPhase workAtSession4) = [WorkSessionComplete]
           \<and> isBreakLong (pomState (startNextPhase workAtSession4))
           \<and> currentSession (pomState (startNextPhase workAtSession4)) = 4
           \<and> mode (pomState (startNextPhase workAtSession4)) = Break
           \<and> callbackLog (runTimeout (pomTick 1000 workAtSession4)) = [WorkSessionComplete]"
    using m r s C8_phase_transition [of workAtSession4 1000] by simp
  have q: "stateRef ?q = pomState (startNextPhase workAtSession4)
           \<and> callbackLog ?q = callbackLog (startNextPhase workAtSession4)
           \<and> workDuration (settings ?q) = 25"
    by (simp add: render_def syncEffect_def Let_def startNextPhase_def workAtSession4_def
        DEFAULT_POMODORO_SETTINGS_def)
  have b: "mode (stateRef ?q) = Break \<and> isBreakLong (stateRef ?q)
           \<and> callbackLog ?q = [WorkSessionComplete]"
    using a q by simp
  have c: "callbackLog (startNextPhase ?q) = [WorkSessionComplete, BreakComplete]
           \<and> mode (pomState (startNextPhase ?q)) = Work
           \<and> currentSession (pomState (startNextPhase ?q)) = 1
           \<and> timeRemaining (pomState (startNextPhase ?q)) = 1500000"
    using b q C8_phase_transition [of ?q 0] by simp
  show ?thesis
    using m m' r a b c by simp
qed

lemma startNextPhase_full_duration:
  "timeRemaining (pomState (startNextPhase p))
     = getTotalDuration (settings p) (mode (pomState (startNextPhase p)))
         (isBreakLong (pomState (startNextPhase p)))
   \<and> callbackLog (startNextPhase p)
     = callbackLog p @ [if mode (stateRef p) = Work then WorkSessionComplete else BreakComplete]
   \<and> pendingPhase (startNextPhase p) = pendingPhase p
   \<and> mode (pomState (startNextPhase p)) \<noteq> mode (stateRef p)
   \<and> isActive (pomState (startNextPhase p))"
  by (cases "mode (stateRef p)") (simp_all add: startNextPhase_def Let_def getTotalDuration_def)

lemma startNextPhase_frame:
  "pomIsRunningRef (startNextPhase p) = pomIsRunningRef p
   \<and> isPaused (startNextPhase p) = isPaused p
   \<and> lastTickRef (startNextPhase p) = lastTickRef p
   \<and> settings (startNextPhase p) = settings p
   \<and> stateRef (startNextPhase p) = stateRef p
   \<and> storedState (startNextPhase p) = storedState p"
  by (simp add: startNextPhase_def Let_def)

lemma visible_subtract:
  assumes "pomIsRunningRef p" "storedState p = Some sv" "now - savedAt sv \<le> 86400000"
    "isActive (snapState sv)" "\<not> snapIsPaused sv"
    "timeRemaining (snapState sv) - (now - snapLastTick sv) > 0"
  shows "handleVisibilityChange False now p =
           p\<lparr>pomState := (pomState p)\<lparr>timeRemaining :=
                             timeRemaining (snapState sv) - (now - snapLastTick sv)\<rparr>,
             lastTickRef := now, pomAnimationFrameRef := True\<rparr>"
  using assms by (simp add: handleVisibilityChange_def loadPomodoroState_def Let_def)

lemma visible_fire:
  assumes "pomIsRunningRef p" "storedState p = Some sv" "now - savedAt sv \<le> 86400000"
    "isActive (snapState sv)" "\<not> snapIsPaused sv"
    "timeRemaining (snapState sv) - (now - snapLastTick sv) \<le> 0"
  shows "handleVisibilityChange False now p =
           (startNextPhase p)\<lparr>lastTickRef := now, pomAnimationFrameRef := True\<rparr>"
proof -
  have e: "p\<lparr>storedState := Some sv\<rparr> = p"
    using assms(2) by (cases p) simp
  show ?thesis
    using assms by (simp add: handleVisibilityChange_def loadPomodoroState_def Let_def e)
qed

lemma visible_stale:
  assumes "pomIsRunningRef p" "storedState p = Some sv" "now - savedAt sv > 86400000"
  shows "handleVisibilityChange False now p =
           p\<lparr>storedState := None, lastTickRef := now, pomAnimationFrameRef := True\<rparr>"
  using assms by (simp add: handleVisibilityChange_def loadPomodoroState_def Let_def)

text \<open>
  While the countdown of an active overlay has not run out and no timeout is pending,
  frames, timeouts and renders in any order call no callback and leave the phase.
\<close>

lemma quiet_step:
  assumes "isActive (pomState p)" "pendingPhase p = 0"
    "pomIsRunningRef p \<longrightarrow>
       lastTickRef p \<le> lo \<and> hi \<le> lastTickRef p + timeRemaining (pomState p)"
    "\<not> isPaused p \<longrightarrow> pomIsRunningRef p"
    "within lo hi (ev # es)"
  shows "\<exists>lo'. isActive (pomState (pomStep ev p)) \<and> pendingPhase (pomStep ev p) = 0
           \<and> (pomIsRunningRef (pomStep ev p) \<longrightarrow>
                 lastTickRef (pomStep ev p) \<le> lo'
                 \<and> hi \<le> lastTickRef (pomStep ev p) + timeRemaining (pomState (pomStep ev p)))
           \<and> (\<not> isPaused (pomStep ev p) \<longrightarrow> pomIsRunningRef (pomStep ev p))
           \<and> within lo' hi es
           \<and> callbackLog (pomStep ev p) = callbackLog p
           \<and> mode (pomState (pomStep ev p)) = mode (pomState p)
           \<and> currentSession (pomState (pomStep ev p)) = currentSession (pomState p)"
proof (cases ev)
  case (Frame t)
  have w: "lo \<le> t \<and> t < hi \<and> within t hi es" using assms(5) Frame by simp
  show ?thesis
  proof (cases "pomIsRunningRef p \<and> pomAnimationFrameRef p")
    case True
    have "0 < timeRemaining (pomState p) - (t - lastTickRef p)" using w assms(3) True by simp
    then have e: "pomTick t p =
        p\<lparr>lastTickRef := t,
          pomState := (pomState p)\<lparr>timeRemaining := timeRemaining (pomState p) - (t - lastTickRef p)\<rparr>,
          pomAnimationFrameRef := True\<rparr>"
      using True by (simp add: pomTick_def Let_def)
    show ?thesis
      by (rule exI [of _ t]) (use Frame w assms True e in simp)
  next
    case False
    have e: "pomStep ev p = p" using False Frame by (auto simp: pomTick_def)
    show ?thesis
      unfolding e by (rule exI [of _ t]) (use assms(1-4) w in auto)
  qed
next
  case Timeout
  have e: "runTimeout p = p" using assms(2) by (simp add: runTimeout_def)
  show ?thesis
    by (rule exI [of _ lo]) (use Timeout assms e in simp)
next
  case (Render t)
  have w: "lo \<le> t \<and> t < hi \<and> within t hi es" using assms(5) Render by simp
  show ?thesis
  proof (cases "isPaused p")
    case True
    have e: "render t p =
        p\<lparr>stateRef := pomState p, pomAnimationFrameRef := False, pomIsRunningRef := False,
          storedState := savePomodoroState (pomState p) True (lastTickRef p) t\<rparr>"
      using assms(1) True by (cases p) (simp add: render_def syncEffect_def Let_def)
    show ?thesis
      by (rule exI [of _ t]) (use Render w assms True e in simp)
  next
    case False
    have e: "render t p =
        p\<lparr>stateRef := pomState p, pomAnimationFrameRef := True, pomIsRunningRef := True,
          lastTickRef := t, storedState := savePomodoroState (pomState p) False t t\<rparr>"
      using assms(1) False by (cases p) (simp add: render_def syncEffect_def Let_def)
    have r: "pomIsRunningRef p" using assms(4) False by simp
    show ?thesis
      by (rule exI [of _ t]) (use Render w assms False r e in simp)
  qed
qed

lemma quiet_run:
  assumes "isActive (pomState p)" "pendingPhase p = 0"
    "pomIsRunningRef p \<longrightarrow>
       lastTickRef p \<le> lo \<and> hi \<le> lastTickRef p + timeRemaining (pomState p)"
    "\<not> isPaused p \<longrightarrow> pomIsRunningRef p"
    "within lo hi es"
  shows "callbackLog (pomRun es p) = callbackLog p
         \<and> mode (pomState (pomRun es p)) = mode (pomState p)
         \<and> currentSession (pomState (pomRun es p)) = currentSession (pomState p)"
  using assms
proof (induction es arbitrary: p lo)
  case Nil
  then show ?case by simp
next
  case (Cons ev es)
  obtain lo' where s: "isActive (pomState (pomStep ev p))" "pendingPhase (pomStep ev p) = 0"
      "pomIsRunningRef (pomStep ev p) \<longrightarrow>
         lastTickRef (pomStep ev p) \<le> lo'
         \<and> hi \<le> lastTickRef (pomStep ev p) + timeRemaining (pomState (pomStep ev p))"
      "\<not> isPaused (pomStep ev p) \<longrightarrow> pomIsRunningRef (pomStep ev p)"
      "within lo' hi es"
    and k: "callbackLog (pomStep ev p) = callbackLog p"
      "mode (pomState (pomStep ev p)) = mode (pomState p)"
      "currentSession (pomState (pomStep ev p)) = currentSession (pomState p)"
    using quiet_step [OF Cons.prems] by blast
  show ?case
    using Cons.IH [OF s] k by simp
qed

lemma reload_fresh:
  assumes "now - savedAt sv \<le> 86400000" "isActive (snapState sv)" "\<not> snapIsPaused sv"
  shows "initPomodoro now s (Some sv) =
           \<lparr>settings = s,
            pomState = (snapState sv)\<lparr>timeRemaining :=
                         max 0 (timeRemaining (snapState sv) - (now - snapLastTick sv))\<rparr>,
            stateRef = (snapState sv)\<lparr>timeRemaining :=
                         max 0 (timeRemaining (snapState sv) - (now - snapLastTick sv))\<rparr>,
            isPaused = False, lastTickRef = now, pomIsRunningRef = True,
            pomAnimationFrameRef = False, storedState = Some sv, callbackLog = [],
            pendingPhase = 0\<rparr>"
  using assms by (simp add: initPomodoro_def loadPomodoroState_def Let_def)

lemma reload_stale:
  assumes "now - savedAt sv > 86400000"
  shows "initPomodoro now s (Some sv) =
           \<lparr>settings = s, pomState = freshState s, stateRef = freshState s, isPaused = False,
            lastTickRef = now, pomIsRunningRef = False, pomAnimationFrameRef = False,
            storedState = None, callbackLog = [], pendingPhase = 0\<rparr>"
  using assms by (simp add: initPomodoro_def loadPomodoroState_def Let_def freshState_def)

lemma hiddenAtMinute20_eq:
  "hiddenAtMinute20 =
     \<lparr>settings = DEFAULT_POMODORO_SETTINGS,
      pomState = \<lparr>isActive = True, mode = Work, currentSession = 1, timeRemaining = 300000,
                   isBreakLong = False\<rparr>,
      stateRef = \<lparr>isActive = True, mode = Work, currentSession = 1, timeRemaining = 300000,
                   isBreakLong = False\<rparr>,
      isPaused = False, lastTickRef = 1200000, pomIsRunningRef = True,
      pomAnimationFrameRef = False,
      storedState = Some \<lparr>snapState = \<lparr>isActive = True, mode = Work, currentSession = 1,
                                        timeRemaining = 300000, isBreakLong = False\<rparr>,
                          snapIsPaused = False, snapLastTick = 1200000, savedAt = 1200000\<rparr>,
      callbackLog = [], pendingPhase = 0\<rparr>"
  by (simp add: hiddenAtMinute20_def handleVisibilityChange_def render_def syncEffect_def
      pomTick_def pomStart_def initPomodoro_def DEFAULT_POMODORO_SETTINGS_def
      loadPomodoroState_def freshState_def savePomodoroState_def Let_def)

text \<open>
  A reload with nothing remaining: after the effects of the first render, the first frame
  schedules the transition and changes nothing else but the refs of the loop.
\<close>

lemma reload_first_frame:
  assumes "now - savedAt sv \<le> 86400000" "isActive (snapState sv)" "\<not> snapIsPaused sv"
    "timeRemaining (snapState sv) - (now - snapLastTick sv) \<le> 0" "now0 \<le> t1"
  shows "pomTick t1 (render now0 (initPomodoro now s (Some sv))) =
           \<lparr>settings = s,
            pomState = (snapState sv)\<lparr>timeRemaining := 0\<rparr>,
            stateRef = (snapState sv)\<lparr>timeRemaining := 0\<rparr>,
            isPaused = False, lastTickRef = t1, pomIsRunningRef = True,
            pomAnimationFrameRef = True,
            storedState = savePomodoroState ((snapState sv)\<lparr>timeRemaining := 0\<rparr>) False now0 now0,
            callbackLog = [], pendingPhase = 1\<rparr>"
  using assms
  by (simp add: reload_fresh render_def syncEffect_def pomTick_def Let_def max_def)

lemma reload_fire:
  assumes "now - savedAt sv \<le> 86400000" "isActive (snapState sv)" "\<not> snapIsPaused sv"
    "timeRemaining (snapState sv) - (now - snapLastTick sv) \<le> 0" "now0 \<le> t1"
  shows "callbackLog (runTimeout (pomTick t1 (render now0 (initPomodoro now s (Some sv)))))
           = [if mode (snapState sv) = Work then WorkSessionComplete else BreakComplete]
         \<and> timeRemaining (pomState (runTimeout (pomTick t1 (render now0 (initPomodoro now s (Some sv))))))
           = getTotalDuration s
               (mode (pomState (runTimeout (pomTick t1 (render now0 (initPomodoro now s (Some sv)))))))
               (isBreakLong (pomState (runTimeout (pomTick t1 (render now0 (initPomodoro now s (Some sv)))))))
         \<and> mode (pomState (runTimeout (pomTick t1 (render now0 (initPomodoro now s (Some sv))))))
           \<noteq> mode (snapState sv)
         \<and> lastTickRef (runTimeout (pomTick t1 (render now0 (initPomodoro now s (Some sv))))) = t1
         \<and> (within t1 (t1 + timeRemaining (pomState (runTimeout (pomTick t1
                 (render now0 (initPomodoro now s (Some sv))))))) es \<longrightarrow>
              callbackLog (pomRun es (runTimeout (pomTick t1
                 (render now0 (initPomodoro now s (Some sv))))))
                = [if mode (snapState sv) = Work then WorkSessionComplete else BreakComplete]
              \<and> mode (pomState (pomRun es (runTimeout (pomTick t1
                 (render now0 (initPomodoro now s (Some sv)))))))
                = mode (pomState (runTimeout (pomTick t1
                 (render now0 (initPomodoro now s (Some sv)))))))"
proof -
  let ?q = "pomTick t1 (render now0 (initPomodoro now s (Some sv)))"
  let ?q1 = "?q\<lparr>pendingPhase := 0\<rparr>"
  note f = reload_first_frame [OF assms, of s]
  have t: "runTimeout ?q = startNextPhase ?q1"
    unfolding f by (simp add: runTimeout_def)
  have q: "settings ?q1 = s \<and> callbackLog ?q1 = [] \<and> mode (stateRef ?q1) = mode (snapState sv)
           \<and> pendingPhase ?q1 = 0 \<and> lastTickRef ?q1 = t1 \<and> pomIsRunningRef ?q1
           \<and> \<not> isPaused ?q1"
    unfolding f by simp
  have a: "callbackLog (startNextPhase ?q1)
           = [if mode (snapState sv) = Work then WorkSessionComplete else BreakComplete]
         \<and> timeRemaining (pomState (startNextPhase ?q1))
           = getTotalDuration s (mode (pomState (startNextPhase ?q1)))
               (isBreakLong (pomState (startNextPhase ?q1)))
         \<and> mode (pomState (startNextPhase ?q1)) \<noteq> mode (snapState sv)
         \<and> lastTickRef (startNextPhase ?q1) = t1
         \<and> pendingPhase (startNextPhase ?q1) = 0
         \<and> pomIsRunningRef (startNextPhase ?q1) \<and> \<not> isPaused (startNextPhase ?q1)
         \<and> isActive (pomState (startNextPhase ?q1))"
    using startNextPhase_full_duration [of ?q1] startNextPhase_frame [of ?q1] q by simp
  have b: "callbackLog (pomRun es (startNextPhase ?q1)) = callbackLog (startNextPhase ?q1)
           \<and> mode (pomState (pomRun es (startNextPhase ?q1))) = mode (pomState (startNextPhase ?q1))"
    if g7: "within t1 (t1 + timeRemaining (pomState (startNextPhase ?q1))) es"
  proof -
    have g1: "isActive (pomState (startNextPhase ?q1))"
      using a by blast
    have g2: "pendingPhase (startNextPhase ?q1) = 0"
      using a by blast
    have g3: "pomIsRunningRef (startNextPhase ?q1) \<longrightarrow>
                lastTickRef (startNextPhase ?q1) \<le> t1
                \<and> t1 + timeRemaining (pomState (startNextPhase ?q1))
                   \<le> lastTickRef (startNextPhase ?q1) + timeRemaining (pomState (startNextPhase ?q1))"
      using a by simp
    have g4: "\<not> isPaused (startNextPhase ?q1) \<longrightarrow> pomIsRunningRef (startNextPhase ?q1)"
      using a by blast
    show ?thesis
      using quiet_run [OF g1 g2 g3 g4 g7] by simp
  qed
  show ?thesis
    unfolding t using a b by simp
qed

text \<open>
  C9 (as amended).  When the overlay becomes visible again while running, with a stored
  snapshot at most 24 hours old that is active and not paused, the time since the
  snapshot's last tick is subtracted from the snapshot's remaining countdown; when nothing
  remains, the handler itself makes the phase transition, once: the next phase has its full
  configured duration counted from that instant, and when no transition was already
  scheduled, no frame, timeout or render within that duration makes a further one.  On a reload with such a snapshot the remainder
  is cut at zero and nothing is called during the load; the first frame schedules the
  transition, and when the scheduled transition runs before a further frame it is made
  once, the next phase having its full configured duration.  A snapshot older than 24 hours
  is removed and never fast-forwarded: a reload starts fresh, a tab that becomes visible
  again keeps its phase and remaining countdown.
\<close>

theorem C9_visibility_and_reload:
  "(pomIsRunningRef p \<and> storedState p = Some sv \<and> now - savedAt sv \<le> 86400000
      \<and> isActive (snapState sv) \<and> \<not> snapIsPaused sv \<longrightarrow>
      (0 < timeRemaining (snapState sv) - (now - snapLastTick sv) \<longrightarrow>
         handleVisibilityChange False now p =
           p\<lparr>pomState := (pomState p)\<lparr>timeRemaining :=
                             timeRemaining (snapState sv) - (now - snapLastTick sv)\<rparr>,
             lastTickRef := now, pomAnimationFrameRef := True\<rparr>)
      \<and> (timeRemaining (snapState sv) - (now - snapLastTick sv) \<le> 0 \<longrightarrow>
         callbackLog (handleVisibilityChange False now p)
           = callbackLog p @ [if mode (stateRef p) = Work then WorkSessionComplete
                              else BreakComplete]
         \<and> pomState (handleVisibilityChange False now p) = pomState (startNextPhase p)
         \<and> mode (pomState (handleVisibilityChange False now p)) \<noteq> mode (stateRef p)
         \<and> timeRemaining (pomState (handleVisibilityChange False now p))
             = getTotalDuration (settings p)
                 (mode (pomState (handleVisibilityChange False now p)))
                 (isBreakLong (pomState (handleVisibilityChange False now p)))
         \<and> lastTickRef (handleVisibilityChange False now p) = now
         \<and> pendingPhase (handleVisibilityChange False now p) = pendingPhase p
         \<and> (pendingPhase p = 0
              \<and> within now (now + timeRemaining (pomState (handleVisibilityChange False now p)))
                   es \<longrightarrow>
              callbackLog (pomRun es (handleVisibilityChange False now p))
                = callbackLog (handleVisibilityChange False now p)
              \<and> mode (pomState (pomRun es (handleVisibilityChange False now p)))
                = mode (pomState (handleVisibilityChange False now p)))))
   \<and> (pomIsRunningRef p \<and> storedState p = Some sv \<and> now - savedAt sv > 86400000 \<longrightarrow>
        handleVisibilityChange False now p =
          p\<lparr>storedState := None, lastTickRef := now, pomAnimationFrameRef := True\<rparr>)
   \<and> (now - savedAt sv \<le> 86400000 \<and> isActive (snapState sv) \<and> \<not> snapIsPaused sv \<longrightarrow>
        pomState (initPomodoro now s (Some sv)) =
          (snapState sv)\<lparr>timeRemaining :=
             max 0 (timeRemaining (snapState sv) - (now - snapLastTick sv))\<rparr>
        \<and> stateRef (initPomodoro now s (Some sv)) = pomState (initPomodoro now s (Some sv))
        \<and> callbackLog (initPomodoro now s (Some sv)) = []
        \<and> pendingPhase (initPomodoro now s (Some sv)) = 0
        \<and> (timeRemaining (snapState sv) - (now - snapLastTick sv) \<le> 0 \<and> now \<le> t1 \<longrightarrow>
             pendingPhase (pomTick t1 (render now (initPomodoro now s (Some sv)))) = 1
             \<and> callbackLog (pomTick t1 (render now (initPomodoro now s (Some sv)))) = []
             \<and> pomState (pomTick t1 (render now (initPomodoro now s (Some sv))))
                 = pomState (initPomodoro now s (Some sv))
             \<and> callbackLog (runTimeout (pomTick t1 (render now (initPomodoro now s (Some sv)))))
                 = [if mode (snapState sv) = Work then WorkSessionComplete else BreakComplete]
             \<and> mode (pomState (runTimeout (pomTick t1
                   (render now (initPomodoro now s (Some sv))))))
                 \<noteq> mode (snapState sv)
             \<and> timeRemaining (pomState (runTimeout (pomTick t1
                   (render now (initPomodoro now s (Some sv))))))
                 = getTotalDuration s
                     (mode (pomState (runTimeout (pomTick t1
                        (render now (initPomodoro now s (Some sv)))))))
                     (isBreakLong (pomState (runTimeout (pomTick t1
                        (render now (initPomodoro now s (Some sv)))))))
             \<and> lastTickRef (runTimeout (pomTick t1
                   (render now (initPomodoro now s (Some sv))))) = t1
             \<and> (within t1 (t1 + timeRemaining (pomState (runTimeout (pomTick t1
                     (render now (initPomodoro now s (Some sv))))))) es \<longrightarrow>
                  callbackLog (pomRun es (runTimeout (pomTick t1
                     (render now (initPomodoro now s (Some sv))))))
                    = [if mode (snapState sv) = Work then WorkSessionComplete else BreakComplete]
                  \<and> mode (pomState (pomRun es (runTimeout (pomTick t1
                     (render now (initPomodoro now s (Some sv)))))))
                    = mode (pomState (runTimeout (pomTick t1
                     (render now (initPomodoro now s (Some sv)))))))))
   \<and> (now - savedAt sv > 86400000 \<longrightarrow>
        pomState (initPomodoro now s (Some sv)) = freshState s
        \<and> storedState (initPomodoro now s (Some sv)) = None
        \<and> \<not> isPaused (initPomodoro now s (Some sv))
        \<and> callbackLog (initPomodoro now s (Some sv)) = [])"
proof -
  let ?h = "handleVisibilityChange False now p"
  let ?i = "initPomodoro now s (Some sv)"
  let ?q = "pomTick t1 (render now ?i)"
  have v1: "pomIsRunningRef p \<and> storedState p = Some sv \<and> now - savedAt sv \<le> 86400000
      \<and> isActive (snapState sv) \<and> \<not> snapIsPaused sv
      \<and> 0 < timeRemaining (snapState sv) - (now - snapLastTick sv) \<Longrightarrow>
         ?h = p\<lparr>pomState := (pomState p)\<lparr>timeRemaining :=
                             timeRemaining (snapState sv) - (now - snapLastTick sv)\<rparr>,
             lastTickRef := now, pomAnimationFrameRef := True\<rparr>"
    using visible_subtract [of p sv now] by simp
  have v2: "callbackLog ?h
           = callbackLog p @ [if mode (stateRef p) = Work then WorkSessionComplete
                              else BreakComplete]
         \<and> pomState ?h = pomState (startNextPhase p)
         \<and> mode (pomState ?h) \<noteq> mode (stateRef p)
         \<and> timeRemaining (pomState ?h)
             = getTotalDuration (settings p) (mode (pomState ?h)) (isBreakLong (pomState ?h))
         \<and> lastTickRef ?h = now
         \<and> pendingPhase ?h = pendingPhase p
         \<and> (pendingPhase p = 0
              \<and> within now (now + timeRemaining (pomState ?h)) es \<longrightarrow>
              callbackLog (pomRun es ?h) = callbackLog ?h
              \<and> mode (pomState (pomRun es ?h)) = mode (pomState ?h))"
    if h: "pomIsRunningRef p \<and> storedState p = Some sv \<and> now - savedAt sv \<le> 86400000
      \<and> isActive (snapState sv) \<and> \<not> snapIsPaused sv
      \<and> timeRemaining (snapState sv) - (now - snapLastTick sv) \<le> 0"
  proof -
    have e: "?h = (startNextPhase p)\<lparr>lastTickRef := now, pomAnimationFrameRef := True\<rparr>"
      using h visible_fire [of p sv now] by simp
    have f: "pomIsRunningRef ?h \<and> isActive (pomState ?h) \<and> isPaused ?h = isPaused p
             \<and> pendingPhase ?h = pendingPhase p \<and> lastTickRef ?h = now
             \<and> pomState ?h = pomState (startNextPhase p)
             \<and> callbackLog ?h = callbackLog (startNextPhase p)"
      using h startNextPhase_full_duration [of p] startNextPhase_frame [of p]
      unfolding e by simp
    have q: "pendingPhase p = 0
              \<and> within now (now + timeRemaining (pomState ?h)) es \<longrightarrow>
              callbackLog (pomRun es ?h) = callbackLog ?h
              \<and> mode (pomState (pomRun es ?h)) = mode (pomState ?h)"
    proof
      assume a: "pendingPhase p = 0
              \<and> within now (now + timeRemaining (pomState ?h)) es"
      have g1: "isActive (pomState ?h)"
        using f by blast
      have g2: "pendingPhase ?h = 0"
        using f a by simp
      have g3: "pomIsRunningRef ?h \<longrightarrow>
                  lastTickRef ?h \<le> now
                  \<and> now + timeRemaining (pomState ?h) \<le> lastTickRef ?h + timeRemaining (pomState ?h)"
        using f by simp
      have g4: "\<not> isPaused ?h \<longrightarrow> pomIsRunningRef ?h"
        using f by blast
      have g5: "within now (now + timeRemaining (pomState ?h)) es"
        using a by simp
      show "callbackLog (pomRun es ?h) = callbackLog ?h
              \<and> mode (pomState (pomRun es ?h)) = mode (pomState ?h)"
        using quiet_run [OF g1 g2 g3 g4 g5] by simp
    qed
    show ?thesis
      using q f startNextPhase_full_duration [of p] by simp
  qed
  have v3: "pomIsRunningRef p \<and> storedState p = Some sv \<and> now - savedAt sv > 86400000 \<Longrightarrow>
        ?h = p\<lparr>storedState := None, lastTickRef := now, pomAnimationFrameRef := True\<rparr>"
    using visible_stale [of p sv now] by simp
  have r1: "pomState ?i =
          (snapState sv)\<lparr>timeRemaining :=
             max 0 (timeRemaining (snapState sv) - (now - snapLastTick sv))\<rparr>
        \<and> stateRef ?i = pomState ?i \<and> callbackLog ?i = [] \<and> pendingPhase ?i = 0"
    if "now - savedAt sv \<le> 86400000 \<and> isActive (snapState sv) \<and> \<not> snapIsPaused sv"
    using that reload_fresh [of now sv s] by simp
  have r2: "pendingPhase ?q = 1 \<and> callbackLog ?q = [] \<and> pomState ?q = pomState ?i
             \<and> callbackLog (runTimeout ?q)
                 = [if mode (snapState sv) = Work then WorkSessionComplete else BreakComplete]
             \<and> mode (pomState (runTimeout ?q)) \<noteq> mode (snapState sv)
             \<and> timeRemaining (pomState (runTimeout ?q))
                 = getTotalDuration s (mode (pomState (runTimeout ?q)))
                     (isBreakLong (pomState (runTimeout ?q)))
             \<and> lastTickRef (runTimeout ?q) = t1
             \<and> (within t1 (t1 + timeRemaining (pomState (runTimeout ?q))) es \<longrightarrow>
                  callbackLog (pomRun es (runTimeout ?q))
                    = [if mode (snapState sv) = Work then WorkSessionComplete else BreakComplete]
                  \<and> mode (pomState (pomRun es (runTimeout ?q)))
                    = mode (pomState (runTimeout ?q)))"
    if a: "now - savedAt sv \<le> 86400000 \<and> isActive (snapState sv) \<and> \<not> snapIsPaused sv"
       and b: "timeRemaining (snapState sv) - (now - snapLastTick sv) \<le> 0 \<and> now \<le> t1"
  proof -
    have f: "pendingPhase ?q = 1 \<and> callbackLog ?q = [] \<and> pomState ?q = pomState ?i"
      using a b reload_first_frame [of now sv now t1 s] reload_fresh [of now sv s]
      by (simp add: max_def)
    show ?thesis
      using f a b reload_fire [of now sv now t1 s es] by simp
  qed
  have r3: "pomState ?i = freshState s \<and> storedState ?i = None \<and> \<not> isPaused ?i
            \<and> callbackLog ?i = []"
    if "now - savedAt sv > 86400000"
    using that reload_stale [of now sv s] by simp
  show ?thesis
    using v1 v2 v3 r1 r2 r3 by blast
qed

text \<open>
  C9, witness: Scenario D (hidden at minute 20 with 5 minutes left, visible at minute 40,
  then frames, renders and a timeout), the same tab visible at minute 22 and after 25
  hours, and reloads at minute 40 and after 25 hours.
\<close>

theorem C9_visibility_and_reload_witness:
  "pomIsRunningRef hiddenAtMinute20 \<and> storedState hiddenAtMinute20 = Some snapAtMinute20
   \<and> pendingPhase hiddenAtMinute20 = 0
   \<and> callbackLog (handleVisibilityChange False 2400000 hiddenAtMinute20) = [WorkSessionComplete]
   \<and> pomState (handleVisibilityChange False 2400000 hiddenAtMinute20)
       = \<lparr>isActive = True, mode = Break, currentSession = 1, timeRemaining = 300000,
          isBreakLong = False\<rparr>
   \<and> lastTickRef (handleVisibilityChange False 2400000 hiddenAtMinute20) = 2400000
   \<and> within 2400000 (2400000 + 300000) afterReopen
   \<and> callbackLog (pomRun afterReopen (handleVisibilityChange False 2400000 hiddenAtMinute20))
       = [WorkSessionComplete]
   \<and> mode (pomState (pomRun afterReopen
        (handleVisibilityChange False 2400000 hiddenAtMinute20))) = Break
   \<and> timeRemaining (pomState (handleVisibilityChange False 1320000 hiddenAtMinute20)) = 180000
   \<and> callbackLog (handleVisibilityChange False 1320000 hiddenAtMinute20) = []
   \<and> storedState (handleVisibilityChange False 91200000 hiddenAtMinute20) = None
   \<and> timeRemaining (pomState (initPomodoro 2400000 DEFAULT_POMODORO_SETTINGS (Some snapAtMinute20))) = 0
   \<and> callbackLog (initPomodoro 2400000 DEFAULT_POMODORO_SETTINGS (Some snapAtMinute20)) = []
   \<and> pendingPhase (pomTick 2400016 reloadAtMinute40) = 1
   \<and> callbackLog (pomTick 2400016 reloadAtMinute40) = []
   \<and> callbackLog (runTimeout (pomTick 2400016 reloadAtMinute40)) = [WorkSessionComplete]
   \<and> timeRemaining (pomState (runTimeout (pomTick 2400016 reloadAtMinute40))) = 300000
   \<and> within 2400016 (2400016 + 300000) (tl afterReopen)
   \<and> callbackLog (pomRun (tl afterReopen) (runTimeout (pomTick 2400016 reloadAtMinute40)))
       = [WorkSessionComplete]
   \<and> pomState (initPomodoro 91200000 DEFAULT_POMODORO_SETTINGS (Some snapAtMinute20))
       = freshState DEFAULT_POMODORO_SETTINGS"
proof -
  let ?h = "handleVisibilityChange False 2400000 hiddenAtMinute20"
  let ?r = "runTimeout (pomTick 2400016 reloadAtMinute40)"
  have p: "pomIsRunningRef hiddenAtMinute20 \<and> storedState hiddenAtMinute20 = Some snapAtMinute20
           \<and> callbackLog hiddenAtMinute20 = [] \<and> pendingPhase hiddenAtMinute20 = 0
           \<and> \<not> isPaused hiddenAtMinute20
           \<and> mode (stateRef hiddenAtMinute20) = Work
           \<and> settings hiddenAtMinute20 = DEFAULT_POMODORO_SETTINGS"
    by (simp add: hiddenAtMinute20_eq snapAtMinute20_def)
  have n: "pomState (startNextPhase hiddenAtMinute20)
             = \<lparr>isActive = True, mode = Break, currentSession = 1, timeRemaining = 300000,
                isBreakLong = False\<rparr>"
    by (simp add: hiddenAtMinute20_eq startNextPhase_def Let_def DEFAULT_POMODORO_SETTINGS_def)
  have s: "isActive (snapState snapAtMinute20) \<and> \<not> snapIsPaused snapAtMinute20
           \<and> savedAt snapAtMinute20 = 1200000 \<and> snapLastTick snapAtMinute20 = 1200000
           \<and> timeRemaining (snapState snapAtMinute20) = 300000
           \<and> mode (snapState snapAtMinute20) = Work"
    by (simp add: snapAtMinute20_def)
  have w: "within 2400000 (2400000 + 300000) afterReopen
           \<and> within 2400016 (2400016 + 300000) (tl afterReopen)"
    by (simp add: afterReopen_def)
  have a: "callbackLog ?h = [WorkSessionComplete]
   \<and> pomState ?h = \<lparr>isActive = True, mode = Break, currentSession = 1, timeRemaining = 300000,
          isBreakLong = False\<rparr>
   \<and> lastTickRef ?h = 2400000"
    using p n s
      C9_visibility_and_reload [of hiddenAtMinute20 snapAtMinute20 2400000]
    by simp
  have a': "callbackLog (pomRun afterReopen ?h) = [WorkSessionComplete]
   \<and> mode (pomState (pomRun afterReopen ?h)) = Break"
    using p n s w a
      C9_visibility_and_reload [of hiddenAtMinute20 snapAtMinute20 2400000 afterReopen]
    by simp
  have b: "timeRemaining (pomState (handleVisibilityChange False 1320000 hiddenAtMinute20)) = 180000
   \<and> callbackLog (handleVisibilityChange False 1320000 hiddenAtMinute20) = []"
    using p s C9_visibility_and_reload [of hiddenAtMinute20 snapAtMinute20 1320000]
    by simp
  have c: "storedState (handleVisibilityChange False 91200000 hiddenAtMinute20) = None"
    using p s C9_visibility_and_reload [of hiddenAtMinute20 snapAtMinute20 91200000]
    by simp
  have d: "timeRemaining (pomState (initPomodoro 2400000 DEFAULT_POMODORO_SETTINGS (Some snapAtMinute20))) = 0
   \<and> callbackLog (initPomodoro 2400000 DEFAULT_POMODORO_SETTINGS (Some snapAtMinute20)) = []
   \<and> pendingPhase (pomTick 2400016 reloadAtMinute40) = 1
   \<and> callbackLog (pomTick 2400016 reloadAtMinute40) = []
   \<and> callbackLog ?r = [WorkSessionComplete]
   \<and> timeRemaining (pomState ?r)
       = getTotalDuration DEFAULT_POMODORO_SETTINGS (mode (pomState ?r)) (isBreakLong (pomState ?r))
   \<and> mode (pomState ?r) \<noteq> Work"
    using s C9_visibility_and_reload [where sv = snapAtMinute20 and now = 2400000
        and ?t1.0 = 2400016 and s = DEFAULT_POMODORO_SETTINGS]
    by (simp add: reloadAtMinute40_def)
  have d2: "isBreakLong (pomState ?r) = False"
    by (simp add: reloadAtMinute40_def reload_first_frame snapAtMinute20_def runTimeout_def
        startNextPhase_def Let_def DEFAULT_POMODORO_SETTINGS_def)
  have d3: "timeRemaining (pomState ?r) = 300000"
    using d d2 by (cases "mode (pomState ?r)")
      (simp_all add: getTotalDuration_def DEFAULT_POMODORO_SETTINGS_def)
  have d4: "callbackLog (pomRun (tl afterReopen) ?r) = [WorkSessionComplete]"
    using s w d3 C9_visibility_and_reload [where sv = snapAtMinute20 and now = 2400000
        and ?t1.0 = 2400016 and s = DEFAULT_POMODORO_SETTINGS and es = "tl afterReopen"]
    by (simp add: reloadAtMinute40_def)
  have e: "pomState (initPomodoro 91200000 DEFAULT_POMODORO_SETTINGS (Some snapAtMinute20))
       = freshState DEFAULT_POMODORO_SETTINGS"
    using s C9_visibility_and_reload [where sv = snapAtMinute20 and now = 91200000
        and s = DEFAULT_POMODORO_SETTINGS]
    by simp
  show ?thesis using p w a a' b c d d3 d4 e by simp
qed

text \<open>
  C9 as stated fails in two places.  When the tab becomes visible after more than 24
  hours the snapshot is removed, and the overlay does not restart fresh: it is still active
  in its work phase with its 5 minutes left.  After a reload at minute 40, when two frames
  run before the scheduled transitions, the work-complete callback is called twice.
\<close>

theorem C9_counterexample:
  "pomState (handleVisibilityChange False 91200000 hiddenAtMinute20)
     = \<lparr>isActive = True, mode = Work, currentSession = 1, timeRemaining = 300000,
        isBreakLong = False\<rparr>
   \<and> pomState (handleVisibilityChange False 91200000 hiddenAtMinute20)
       \<noteq> freshState (settings hiddenAtMinute20)
   \<and> storedState (handleVisibilityChange False 91200000 hiddenAtMinute20) = None
   \<and> callbackLog (handleVisibilityChange False 91200000 hiddenAtMinute20) = []
   \<and> callbackLog (pomRun twoFramesFirst reloadAtMinute40)
       = [WorkSessionComplete, WorkSessionComplete]
   \<and> pomState (pomRun twoFramesFirst reloadAtMinute40)
       = \<lparr>isActive = True, mode = Break, currentSession = 1, timeRemaining = 300000,
          isBreakLong = False\<rparr>"
  by (simp add: hiddenAtMinute20_eq handleVisibilityChange_def loadPomodoroState_def Let_def
      freshState_def twoFramesFirst_def reloadAtMinute40_def render_def syncEffect_def
      initPomodoro_def snapAtMinute20_def pomTick_def runTimeout_def startNextPhase_def
      DEFAULT_POMODORO_SETTINGS_def savePomodoroState_def)

section \<open>Properties of the store operations\<close>

lemma filter_insort_new:
  "filter P xs = [] \<Longrightarrow> P x \<Longrightarrow> filter P (insort_key f x xs) = [x]"
  by (induction xs) (auto split: if_splits)

lemma find_segId:
  "distinct (map segId xs) \<Longrightarrow> find (\<lambda>g. segId g = i) xs = Some g \<Longrightarrow>
     g \<in> set xs \<and> segId g = i \<and> (\<forall>g' \<in> set xs. segId g' = i \<longrightarrow> g' = g)"
  by (induction xs) (auto split: if_splits simp: image_iff)

lemma find_None_segId:
  "find (\<lambda>g. segId g = i) xs = None \<Longrightarrow> \<forall>g \<in> set xs. segId g \<noteq> i"
  by (induction xs) (auto split: if_splits)

lemma putRec_present:
  "r' \<in> set xs \<Longrightarrow> key r' = key r \<Longrightarrow> putRec key r xs = map (\<lambda>x. if key x = key r then r else x) xs"
proof -
  assume "r' \<in> set xs" and "key r' = key r"
  then have "key r \<in> set (map key xs)" by (metis image_eqI set_map)
  then show ?thesis by (simp add: putRec_def)
qed

lemma map_upd_same:
  "(\<And>x. x \<in> set xs \<Longrightarrow> f (u x) = f x) \<Longrightarrow> map f (map u xs) = map f xs"
  by (induction xs) auto

lemma closeSegment_cases [consumes 1, case_names absent closed updated]:
  assumes "closeSegment True t i d = Inr d'"
  obtains "find (\<lambda>g. segId g = i) (segmentStore d) = None" "d' = d"
  | g where "find (\<lambda>g. segId g = i) (segmentStore d) = Some g" "\<not> falsyTs (endTs g)" "d' = d"
  | g where "find (\<lambda>g. segId g = i) (segmentStore d) = Some g" "falsyTs (endTs g)"
      "d' = d\<lparr>segmentStore := map (\<lambda>x. if segId x = i then g\<lparr>endTs := Some t\<rparr> else x)
                                         (segmentStore d)\<rparr>"
proof (cases "find (\<lambda>g. segId g = i) (segmentStore d)")
  case None
  have "d' = d" using assms None by (simp add: closeSegment_def)
  then show ?thesis using None that(1) by blast
next
  case (Some g)
  then have m: "g \<in> set (segmentStore d) \<and> segId g = i"
    by (auto simp: find_Some_iff)
  show ?thesis
  proof (cases "falsyTs (endTs g)")
    case True
    have "putRec segId (g\<lparr>endTs := Some t\<rparr>) (segmentStore d)
            = map (\<lambda>x. if segId x = i then g\<lparr>endTs := Some t\<rparr> else x) (segmentStore d)"
      using m putRec_present [of g "segmentStore d" segId "g\<lparr>endTs := Some t\<rparr>"] by simp
    then have "d' = d\<lparr>segmentStore := map (\<lambda>x. if segId x = i then g\<lparr>endTs := Some t\<rparr> else x)
                                         (segmentStore d)\<rparr>"
      using assms Some True by (simp add: closeSegment_def)
    then show ?thesis using Some True that(3) by blast
  next
    case False
    have "d' = d" using assms Some False by (simp add: closeSegment_def)
    then show ?thesis using Some False that(2) by blast
  qed
qed

lemma closeSegment_sessions: "closeSegment b t i d = Inr d' \<Longrightarrow> sessions d' = sessions d"
  by (auto simp: closeSegment_def split: if_splits option.splits)

lemma closeSegment_keys:
  assumes "closeSegment True t i d = Inr d'" and "distinct (map segId (segmentStore d))"
  shows "map segId (segmentStore d') = map segId (segmentStore d)
         \<and> map sessionId (segmentStore d') = map sessionId (segmentStore d)"
using assms(1) proof (cases rule: closeSegment_cases)
  case absent then show ?thesis by simp
next
  case (closed g) then show ?thesis by simp
next
  case (updated g)
  have u: "\<forall>x \<in> set (segmentStore d). segId x = i \<longrightarrow> x = g"
    using find_segId [OF assms(2) updated(1)] by blast
  have g: "segId g = i"
    using find_segId [OF assms(2) updated(1)] by blast
  have "map segId (map (\<lambda>x. if segId x = i then g\<lparr>endTs := Some t\<rparr> else x) (segmentStore d))
          = map segId (segmentStore d)"
    by (rule map_upd_same) (use g in auto)
  moreover have "map sessionId (map (\<lambda>x. if segId x = i then g\<lparr>endTs := Some t\<rparr> else x) (segmentStore d))
          = map sessionId (segmentStore d)"
    by (rule map_upd_same) (use u in auto)
  ultimately show ?thesis using updated(3) by simp
qed

lemma closeSegment_openSegs:
  assumes "closeSegment True t i d = Inr d'" and "distinct (map segId (segmentStore d))"
  shows "openSegs sid d' = filter (\<lambda>g. segId g \<noteq> i) (openSegs sid d)"
using assms(1) proof (cases rule: closeSegment_cases)
  case absent
  have "\<forall>g \<in> set (segmentStore d). segId g \<noteq> i"
    using find_None_segId [OF absent(1)] .
  then have "\<forall>g \<in> set (openSegs sid d). segId g \<noteq> i"
    by (simp add: openSegs_def)
  then have "filter (\<lambda>g. segId g \<noteq> i) (openSegs sid d) = openSegs sid d"
    by simp
  then show ?thesis using absent(2) by simp
next
  case (closed g)
  have u: "\<forall>x \<in> set (segmentStore d). segId x = i \<longrightarrow> x = g"
    using find_segId [OF assms(2) closed(1)] by blast
  have "endTs g \<noteq> None"
    using closed(2) by (cases "endTs g") (auto simp: falsyTs_def)
  then have "\<forall>x \<in> set (openSegs sid d). segId x \<noteq> i"
    using u by (auto simp: openSegs_def)
  then have "filter (\<lambda>g. segId g \<noteq> i) (openSegs sid d) = openSegs sid d"
    by simp
  then show ?thesis using closed(3) by simp
next
  case (updated g)
  have "filter (\<lambda>g. sessionId g = sid \<and> endTs g = None)
          (map (\<lambda>x. if segId x = i then g\<lparr>endTs := Some t\<rparr> else x) xs)
        = filter (\<lambda>g. segId g \<noteq> i) (filter (\<lambda>g. sessionId g = sid \<and> endTs g = None) xs)" for xs
    by (induction xs) auto
  then show ?thesis using updated(3) by (simp add: openSegs_def)
qed

lemma openSegment_result:
  assumes "openSegment True t gid sid tid subid d = Inr (g, d')"
  shows "g = \<lparr>segId = gid, sessionId = sid, topicId = tid, subtopicId = subid,
               startTs = t, endTs = None\<rparr>
         \<and> gid \<notin> set (map segId (segmentStore d))
         \<and> d' = d\<lparr>segmentStore := insort_key segId g (segmentStore d)\<rparr>"
  using assms by (auto simp: openSegment_def Let_def split: if_splits)

lemma openSegment_openSegs:
  assumes "openSegment True t gid sid tid subid d = Inr (g, d')"
  shows "(sid' \<noteq> sid \<longrightarrow> openSegs sid' d' = openSegs sid' d)
         \<and> (openSegs sid d = [] \<longrightarrow> openSegs sid d' = [g])"
  using openSegment_result [OF assms]
  by (auto simp: openSegs_def filter_insort_triv filter_insort_new)

lemma createSession_result:
  assumes "createSession True t sid d = Inr (s, d')"
  shows "s = \<lparr>sessId = sid, sessStartTs = t, sessEndTs = None\<rparr>
         \<and> sid \<notin> set (map sessId (sessions d))
         \<and> d' = d\<lparr>sessions := insort_key sessId s (sessions d)\<rparr>"
  using assms by (auto simp: createSession_def Let_def split: if_splits)

lemma endSession_result:
  assumes "endSession True t i d = Inr d'"
  shows "segmentStore d' = segmentStore d \<and> set (map sessId (sessions d')) = set (map sessId (sessions d))"
proof (cases "find (\<lambda>s. sessId s = i) (sessions d)")
  case None
  then show ?thesis using assms by (simp add: endSession_def)
next
  case (Some s)
  then have m: "s \<in> set (sessions d) \<and> sessId s = i"
    by (auto simp: find_Some_iff)
  have p: "putRec sessId (s\<lparr>sessEndTs := Some t\<rparr>) (sessions d)
            = map (\<lambda>x. if sessId x = i then s\<lparr>sessEndTs := Some t\<rparr> else x) (sessions d)"
    using m putRec_present [of s "sessions d" sessId "s\<lparr>sessEndTs := Some t\<rparr>"] by simp
  have k: "map sessId (map (\<lambda>x. if sessId x = i then s\<lparr>sessEndTs := Some t\<rparr> else x) (sessions d))
          = map sessId (sessions d)"
    by (rule map_upd_same) (use m in auto)
  have d': "d' = d\<lparr>sessions := map (\<lambda>x. if sessId x = i then s\<lparr>sessEndTs := Some t\<rparr> else x)
                                   (sessions d)\<rparr>"
    using assms Some p by (simp add: endSession_def)
  have "map sessId (sessions d') = map sessId (sessions d)"
    unfolding d' using k by simp
  then have "set (map sessId (sessions d')) = set (map sessId (sessions d))"
    by (rule arg_cong)
  then show ?thesis using d' by simp
qed

lemma closeSegment_Inr: "closeSegment b t i d = Inr d' \<Longrightarrow> closeSegment True t i d = Inr d'"
  by (cases b) (simp_all add: closeSegment_def)

lemma openSegment_Inr:
  "openSegment b t gid sid tid subid d = Inr r \<Longrightarrow> openSegment True t gid sid tid subid d = Inr r"
  by (cases b) (simp_all add: openSegment_def Let_def)

lemma createSession_Inr: "createSession b t sid d = Inr r \<Longrightarrow> createSession True t sid d = Inr r"
  by (cases b) (simp_all add: createSession_def Let_def)

lemma endSession_Inr: "endSession b t i d = Inr d' \<Longrightarrow> endSession True t i d = Inr d'"
  by (cases b) (simp_all add: endSession_def)

lemma distinct_map_insort:
  "distinct (map f xs) \<Longrightarrow> f x \<notin> f ` set xs \<Longrightarrow> distinct (map f (insort_key f x xs))"
  by (induction xs) (auto simp: set_insort_key)

lemma storeInv_close:
  assumes "storeInv d" and "closeSegment b t i d = Inr d'"
  shows "storeInv d'"
proof -
  have c: "closeSegment True t i d = Inr d'" using assms(2) by (rule closeSegment_Inr)
  have dist: "distinct (map segId (segmentStore d))" using assms(1) by (simp add: storeInv_def)
  have k: "map segId (segmentStore d') = map segId (segmentStore d)"
    and s: "map sessionId (segmentStore d') = map sessionId (segmentStore d)"
    using closeSegment_keys [OF c dist] by simp_all
  have "set (map sessionId (segmentStore d')) = set (map sessionId (segmentStore d))"
    using s by (rule arg_cong)
  then have img: "sessionId ` set (segmentStore d') = sessionId ` set (segmentStore d)"
    by simp
  have old: "\<forall>g \<in> set (segmentStore d). sessionId g \<in> set (map sessId (sessions d))"
    using assms(1) by (simp add: storeInv_def)
  have "sessionId g \<in> set (map sessId (sessions d'))" if "g \<in> set (segmentStore d')" for g
  proof -
    from that have "sessionId g \<in> sessionId ` set (segmentStore d')" by (rule imageI)
    then have "sessionId g \<in> sessionId ` set (segmentStore d)" using img by simp
    then obtain g0 where "g0 \<in> set (segmentStore d)" and "sessionId g = sessionId g0" by blast
    then show ?thesis using old closeSegment_sessions [OF assms(2)] by simp
  qed
  then have ri: "\<forall>g \<in> set (segmentStore d'). sessionId g \<in> set (map sessId (sessions d'))"
    by blast
  have "length (openSegs sid d') \<le> 1" for sid
  proof -
    have "length (openSegs sid d') \<le> length (openSegs sid d)"
      unfolding closeSegment_openSegs [OF c dist] by (rule length_filter_le)
    then show ?thesis using assms(1) by (auto simp: storeInv_def dest: spec [of _ sid])
  qed
  then show ?thesis using k dist ri by (simp add: storeInv_def)
qed

lemma storeInv_open:
  assumes "storeInv d" and "openSegment b t gid sid tid subid d = Inr (g, d')"
    and "sid \<in> set (map sessId (sessions d))" and "openSegs sid d = []"
  shows "storeInv d' \<and> openSegs sid d' = [g] \<and> segId g = gid \<and> sessions d' = sessions d"
proof -
  have c: "openSegment True t gid sid tid subid d = Inr (g, d')"
    using assms(2) by (rule openSegment_Inr)
  note r = openSegment_result [OF c]
  have g: "segId g = gid \<and> sessionId g = sid" using r by simp
  have d': "segmentStore d' = insort_key segId g (segmentStore d) \<and> sessions d' = sessions d"
    using r by simp
  have "distinct (map segId (segmentStore d'))"
    using assms(1) r g d' by (simp add: storeInv_def distinct_map_insort)
  moreover have "\<forall>x \<in> set (segmentStore d'). sessionId x \<in> set (map sessId (sessions d'))"
    using assms(1,3) g d' by (auto simp: storeInv_def set_insort_key)
  moreover have "length (openSegs sid' d') \<le> 1" for sid'
  proof (cases "sid' = sid")
    case True
    then show ?thesis using openSegment_openSegs [OF c, of sid] assms(4) by simp
  next
    case False
    then have "openSegs sid' d' = openSegs sid' d" using openSegment_openSegs [OF c, of sid'] by simp
    then show ?thesis using assms(1) by (auto simp: storeInv_def dest: spec [of _ sid'])
  qed
  ultimately have "storeInv d'" by (simp add: storeInv_def)
  then show ?thesis using openSegment_openSegs [OF c, of sid] assms(4) g d' by simp
qed

lemma storeInv_create:
  assumes "storeInv d" and "createSession b t sid d = Inr (s, d')"
  shows "storeInv d' \<and> sessId s = sid \<and> sid \<in> set (map sessId (sessions d')) \<and> openSegs sid d' = []"
proof -
  have c: "createSession True t sid d = Inr (s, d')" using assms(2) by (rule createSession_Inr)
  note r = createSession_result [OF c]
  have seg: "segmentStore d' = segmentStore d" using r by simp
  have ids: "set (map sessId (sessions d')) = insert sid (set (map sessId (sessions d)))"
    using r by (simp add: set_insort_key)
  have o: "openSegs sid' d' = openSegs sid' d" for sid'
    using seg by (simp add: openSegs_def)
  have "\<forall>g \<in> set (segmentStore d). sessionId g \<noteq> sid"
    using assms(1) r by (auto simp: storeInv_def)
  then have "openSegs sid d = []" by (auto simp: openSegs_def)
  moreover have "storeInv d'"
    using assms(1) seg ids o by (auto simp: storeInv_def)
  ultimately show ?thesis using r ids o by simp
qed

lemma storeInv_endSession:
  assumes "storeInv d" and "endSession b t i d = Inr d'"
  shows "storeInv d' \<and> segmentStore d' = segmentStore d"
proof -
  have c: "endSession True t i d = Inr d'" using assms(2) by (rule endSession_Inr)
  note r = endSession_result [OF c]
  have o: "openSegs sid' d' = openSegs sid' d" for sid'
    using r by (simp add: openSegs_def)
  show ?thesis using assms(1) r o by (auto simp: storeInv_def)
qed

lemma refreshSegments_frame:
  assumes "refreshSegments e k (m, d) = ((m', d'), out)"
  shows "d' = d \<and> state m' = state m \<and> curSessionId m' = curSessionId m
         \<and> currentSegmentIdRef m' = currentSegmentIdRef m
         \<and> currentTopicId m' = currentTopicId m \<and> currentSubtopicId m' = currentSubtopicId m
         \<and> isRunningRef m' = isRunningRef m \<and> animationFrameRef m' = animationFrameRef m"
  using assms
  by (auto simp: refreshSegments_def getSegmentsBySession_def getAllSegments_def
      split: option.splits sum.splits if_splits)

lemma only_open_closed:
  "map segId (openSegs sid d) = [cur] \<Longrightarrow> filter (\<lambda>g. segId g \<noteq> cur) (openSegs sid d) = []"
  by (cases "openSegs sid d") auto

lemma closeCurrent_effect:
  assumes "storeInv d" and "closeCurrent e k m d = Inr (d1, k1)"
  shows "storeInv d1 \<and> sessions d1 = sessions d
         \<and> (\<forall>sid. length (openSegs sid d1) \<le> length (openSegs sid d))
         \<and> (\<forall>sid cur. currentSegmentIdRef m = Some cur \<and> cur \<noteq> []
               \<longrightarrow> openSegs sid d1 = filter (\<lambda>g. segId g \<noteq> cur) (openSegs sid d))"
proof (cases "truthyId (currentSegmentIdRef m)")
  case None
  then have "d1 = d" using assms(2) by (simp add: closeCurrent_def)
  moreover have "\<not> (\<exists>cur. currentSegmentIdRef m = Some cur \<and> cur \<noteq> [])"
    using None by (auto simp: truthyId_def truthy_def split: if_splits)
  ultimately show ?thesis using assms(1) by auto
next
  case (Some cur)
  then have cur: "currentSegmentIdRef m = Some cur"
    by (auto simp: truthyId_def split: if_splits)
  have c: "closeSegment (served e k) (dateNow e) cur d = Inr d1"
    using assms(2) Some by (auto simp: closeCurrent_def split: sum.splits)
  have dist: "distinct (map segId (segmentStore d))" using assms(1) by (simp add: storeInv_def)
  have o: "openSegs sid d1 = filter (\<lambda>g. segId g \<noteq> cur) (openSegs sid d)" for sid
    using closeSegment_openSegs [OF closeSegment_Inr [OF c] dist] .
  have "length (openSegs sid d1) \<le> length (openSegs sid d)" for sid
    unfolding o by (rule length_filter_le)
  then show ?thesis
    using storeInv_close [OF assms(1) c] closeSegment_sessions [OF c] o cur by simp
qed

lemma startSession_inv:
  assumes "engineInv (m, d)" and "envOk e" and "startSession e (m, d) = ((m', d'), Done)"
  shows "engineInv (m', d')"
proof -
  have si: "storeInv d" using assms(1) by (simp add: engineInv_def)
  obtain s d1 where cs: "createSession (served e 0) (dateNow e) (newSessionId e) d = Inr (s, d1)"
    using assms(3) by (auto simp: startSession_def split: sum.splits)
  note c = storeInv_create [OF si cs]
  obtain g where os: "openSegment (served e 1) (dateNow e) (newSegmentId e) (sessId s) None None d1
                        = Inr (g, d')"
    and m': "m' = startLoop e (m\<lparr>curSessionId := Some (sessId s),
                                  currentSegmentIdRef := Some (segId g),
                                  segments := [g], allSegments := allSegments m @ [g]\<rparr>)"
    using assms(3) cs by (auto simp: startSession_def Let_def split: sum.splits)
  have "storeInv d' \<and> openSegs (sessId s) d' = [g] \<and> segId g = newSegmentId e
        \<and> sessions d' = sessions d1"
    using storeInv_open [OF _ os] c by simp
  then show ?thesis
    using m' c assms(2) by (simp add: engineInv_def startLoop_def envOk_def)
qed

lemma pauseSession_inv:
  assumes "engineInv (m, d)" and "state m \<noteq> Idle" and "pauseSession e (m, d) = ((m', d'), Done)"
  shows "engineInv (m', d')"
proof -
  have si: "storeInv d" using assms(1) by (simp add: engineInv_def)
  obtain sid where sid: "curSessionId m = Some sid" "sid \<noteq> []"
      "sid \<in> set (map sessId (sessions d))"
    using assms(1,2) by (cases "state m") (auto simp: engineInv_def)
  show ?thesis
  proof (cases "truthyId (currentSegmentIdRef (stopLoop m))")
    case None
    then have m': "m' = (stopLoop m)\<lparr>state := Paused\<rparr>" and d': "d' = d"
      using assms(3) by (simp_all add: pauseSession_def Let_def)
    have "\<not> (\<exists>cur. currentSegmentIdRef m = Some cur \<and> cur \<noteq> [])"
      using None by (auto simp: truthyId_def truthy_def stopLoop_def split: if_splits)
    then have "state m = Paused"
      using assms(1,2) by (cases "state m") (auto simp: engineInv_def)
    then show ?thesis
      using assms(1) m' d' by (simp add: engineInv_def stopLoop_def)
  next
    case (Some cur)
    then have cur: "currentSegmentIdRef m = Some cur" "cur \<noteq> []"
      by (auto simp: truthyId_def truthy_def stopLoop_def split: if_splits)
    obtain d1 where c: "closeSegment (served e 0) (dateNow e) cur d = Inr d1"
      using assms(3) Some by (auto simp: pauseSession_def Let_def split: sum.splits)
    obtain m2 where r: "refreshSegments e 1 ((stopLoop m)\<lparr>currentSegmentIdRef := None\<rparr>, d1)
                          = ((m2, d'), Done)"
      and m': "m' = m2\<lparr>state := Paused\<rparr>"
      using assms(3) Some c
      by (auto simp: pauseSession_def Let_def split: sum.splits prod.splits outcome.splits)
    note f = refreshSegments_frame [OF r]
    have dist: "distinct (map segId (segmentStore d))" using si by (simp add: storeInv_def)
    have o: "openSegs sid d1 = filter (\<lambda>g. segId g \<noteq> cur) (openSegs sid d)"
      using closeSegment_openSegs [OF closeSegment_Inr [OF c] dist] .
    have "openSegs sid d1 = []"
    proof (cases "state m")
      case Idle then show ?thesis using assms(2) by simp
    next
      case Running
      then have "map segId (openSegs sid d) = [cur]"
        using assms(1) sid cur by (simp add: engineInv_def)
      then show ?thesis unfolding o by (rule only_open_closed)
    next
      case Paused
      then have "openSegs sid d = []" using assms(1) sid by (simp add: engineInv_def)
      then show ?thesis unfolding o by simp
    qed
    then show ?thesis
      using storeInv_close [OF si c] closeSegment_sessions [OF c] f m' sid
      by (simp add: engineInv_def stopLoop_def)
  qed
qed

lemma resumeSession_inv:
  assumes "engineInv (m, d)" and "state m = Paused" and "envOk e"
    and "resumeSession e (m, d) = ((m', d'), Done)"
  shows "engineInv (m', d')"
proof -
  have si: "storeInv d" using assms(1) by (simp add: engineInv_def)
  obtain sid where sid: "curSessionId m = Some sid" "sid \<noteq> []"
      "sid \<in> set (map sessId (sessions d))" "openSegs sid d = []"
    using assms(1,2) by (auto simp: engineInv_def)
  have t: "truthyId (curSessionId m) = Some sid"
    using sid by (simp add: truthyId_def truthy_def)
  obtain g d1 where os: "openSegment (served e 0) (dateNow e) (newSegmentId e) sid
                            (currentTopicId m) (currentSubtopicId m) d = Inr (g, d1)"
    using assms(4) t by (auto simp: resumeSession_def split: sum.splits)
  obtain m2 where r: "refreshSegments e 1 (m\<lparr>currentSegmentIdRef := Some (segId g)\<rparr>, d1)
                        = ((m2, d'), Done)"
    and m': "m' = startLoop e m2"
    using assms(4) t os
    by (auto simp: resumeSession_def split: sum.splits prod.splits outcome.splits)
  note f = refreshSegments_frame [OF r]
  note o = storeInv_open [OF si os sid(3,4)]
  show ?thesis
    using o f m' sid assms(3) by (simp add: engineInv_def startLoop_def envOk_def)
qed

lemma endCurrentSession_inv:
  assumes "engineInv (m, d)" and "endCurrentSession e (m, d) = ((m', d'), Done)"
  shows "engineInv (m', d')"
proof -
  have si: "storeInv d" using assms(1) by (simp add: engineInv_def)
  obtain d1 k1 where cc: "closeCurrent e 0 (stopLoop m) d = Inr (d1, k1)"
    using assms(2) by (auto simp: endCurrentSession_def Let_def split: sum.splits)
  have s1: "storeInv d1" using closeCurrent_effect [OF si cc] by simp
  obtain d2 k2 where es:
    "(case truthyId (curSessionId m) of
        Some sid \<Rightarrow> (case endSession (served e k1) (dateNow e) sid d1 of
                       Inl err \<Rightarrow> Inl err | Inr d2 \<Rightarrow> Inr (d2, Suc k1))
      | None \<Rightarrow> Inr (d1, k1)) = Inr (d2, k2)"
    using assms(2) cc by (auto simp: endCurrentSession_def Let_def split: sum.splits)
  have s2: "storeInv d2"
  proof (cases "truthyId (curSessionId m)")
    case None
    then show ?thesis using es s1 by simp
  next
    case (Some sid)
    then obtain dd where "endSession (served e k1) (dateNow e) sid d1 = Inr dd" and "d2 = dd"
      using es by (auto split: sum.splits)
    then show ?thesis using storeInv_endSession [OF s1] by simp
  qed
  have "d' = d2 \<and> state m' = Idle \<and> curSessionId m' = None"
    using assms(2) cc es
    by (auto simp: endCurrentSession_def Let_def getAllSegments_def
        split: sum.splits if_splits)
  then show ?thesis using s2 by (simp add: engineInv_def)
qed

lemma engineInv_cong:
  "state m' = state m \<Longrightarrow> curSessionId m' = curSessionId m \<Longrightarrow>
   currentSegmentIdRef m' = currentSegmentIdRef m \<Longrightarrow> engineInv (m', d) = engineInv (m, d)"
  by (cases "state m") (simp_all add: engineInv_def)

lemma refreshSegments_inv:
  assumes "engineInv (m, d)" and "refreshSegments e k (m, d) = ((m', d'), out)"
  shows "engineInv (m', d')"
  using refreshSegments_frame [OF assms(2)] assms(1) engineInv_cong [of m' m d] by simp

lemma switchSegment_inv:
  assumes "engineInv (m, d)" and "state m = Running" and "curSessionId m = Some sid"
    and "envOk e" and "switchSegment e sid tid subid (m, d) = ((m1, d1), Done, k)"
  shows "engineInv (m1, d1) \<and> state m1 = Running \<and> curSessionId m1 = Some sid"
proof -
  have si: "storeInv d" using assms(1) by (simp add: engineInv_def)
  obtain cur where inv: "sid \<noteq> []" "sid \<in> set (map sessId (sessions d))"
      "currentSegmentIdRef m = Some cur" "cur \<noteq> []" "map segId (openSegs sid d) = [cur]"
    using assms(1-3) by (auto simp: engineInv_def)
  obtain d0 k0 where cc: "closeCurrent e 0 m d = Inr (d0, k0)"
    using assms(5) by (auto simp: switchSegment_def split: sum.splits)
  note ce = closeCurrent_effect [OF si cc]
  have o0: "openSegs sid d0 = []"
    using ce inv(3,4) only_open_closed [OF inv(5)] by simp
  obtain g where os: "openSegment (served e k0) (dateNow e) (newSegmentId e) sid tid subid d0
                        = Inr (g, d1)"
    and m1: "m1 = m\<lparr>currentSegmentIdRef := Some (segId g)\<rparr>"
    using assms(5) cc by (auto simp: switchSegment_def split: sum.splits)
  have "sid \<in> set (map sessId (sessions d0))" using ce inv(2) by simp
  then have "storeInv d1 \<and> openSegs sid d1 = [g] \<and> segId g = newSegmentId e
             \<and> sessions d1 = sessions d0"
    using storeInv_open [OF _ os _ o0] ce by simp
  then show ?thesis
    using m1 assms(2,3,4) inv(1,2) ce by (simp add: engineInv_def envOk_def)
qed

lemma setTopic_inv:
  assumes "engineInv (m, d)" and "envOk e" and "setTopic e tid (m, d) = ((m', d'), Done)"
  shows "engineInv (m', d')"
proof (cases "state m = Running \<and> truthy (curSessionId m)")
  case False
  then have "m' = m\<lparr>currentTopicId := tid, currentSubtopicId := None\<rparr> \<and> d' = d"
    using assms(3) by (auto simp: setTopic_def Let_def)
  then show ?thesis using assms(1) engineInv_cong [of m' m d] by simp
next
  case True
  then obtain sid where sid: "curSessionId m = Some sid"
    by (auto simp: truthy_def split: option.splits)
  obtain m1 d1 k where sw: "switchSegment e sid tid None (m, d) = ((m1, d1), Done, k)"
    using assms(3) True sid
    by (auto simp: setTopic_def Let_def split: prod.splits outcome.splits)
  obtain m2 where r: "refreshSegments e k (m1, d1) = ((m2, d'), Done)"
    and m': "m' = m2\<lparr>currentTopicId := tid, currentSubtopicId := None\<rparr>"
    using assms(3) True sid sw
    by (auto simp: setTopic_def Let_def split: prod.splits outcome.splits)
  have "engineInv (m1, d1)" using switchSegment_inv [OF assms(1) _ sid assms(2) sw] True by simp
  then have "engineInv (m2, d')" using refreshSegments_inv [OF _ r] by simp
  then show ?thesis using m' engineInv_cong [of m' m2 d'] by simp
qed

lemma setSubtopic_inv:
  assumes "engineInv (m, d)" and "envOk e" and "setSubtopic e subid (m, d) = ((m', d'), Done)"
  shows "engineInv (m', d')"
proof (cases "state m = Running \<and> truthy (curSessionId m)")
  case False
  then have "m' = m\<lparr>currentSubtopicId := subid\<rparr> \<and> d' = d"
    using assms(3) by (auto simp: setSubtopic_def Let_def)
  then show ?thesis using assms(1) engineInv_cong [of m' m d] by simp
next
  case True
  then obtain sid where sid: "curSessionId m = Some sid"
    by (auto simp: truthy_def split: option.splits)
  obtain m1 d1 k where sw: "switchSegment e sid (currentTopicId m) subid (m, d) = ((m1, d1), Done, k)"
    using assms(3) True sid
    by (auto simp: setSubtopic_def Let_def split: prod.splits outcome.splits)
  obtain m2 where r: "refreshSegments e k (m1, d1) = ((m2, d'), Done)"
    and m': "m' = m2\<lparr>currentSubtopicId := subid\<rparr>"
    using assms(3) True sid sw
    by (auto simp: setSubtopic_def Let_def split: prod.splits outcome.splits)
  have "engineInv (m1, d1)" using switchSegment_inv [OF assms(1) _ sid assms(2) sw] True by simp
  then have "engineInv (m2, d')" using refreshSegments_inv [OF _ r] by simp
  then show ?thesis using m' engineInv_cong [of m' m2 d'] by simp
qed

lemma resumeWithContext_inv:
  assumes "engineInv (m, d)" and "envOk e"
    and "resumeWithContext e tid subid (m, d) = ((m', d'), Done)"
  shows "engineInv (m', d')"
proof (cases "state m")
  case Idle
  have si: "storeInv d" using assms(1) by (simp add: engineInv_def)
  obtain s d1 where cs: "createSession (served e 0) (dateNow e) (newSessionId e) d = Inr (s, d1)"
    using assms(3) Idle by (auto simp: resumeWithContext_def Let_def split: sum.splits)
  note c = storeInv_create [OF si cs]
  obtain g where os: "openSegment (served e 1) (dateNow e) (newSegmentId e) (sessId s) tid subid d1
                        = Inr (g, d')"
    and m': "state m' = Running \<and> curSessionId m' = Some (sessId s)
             \<and> currentSegmentIdRef m' = Some (segId g)"
    using assms(3) Idle cs
    by (auto simp: resumeWithContext_def Let_def startLoop_def split: sum.splits)
  have "storeInv d' \<and> openSegs (sessId s) d' = [g] \<and> segId g = newSegmentId e
        \<and> sessions d' = sessions d1"
    using storeInv_open [OF _ os] c by simp
  then show ?thesis
    using m' c assms(2) by (simp add: engineInv_def envOk_def)
next
  case Paused
  have si: "storeInv d" using assms(1) by (simp add: engineInv_def)
  obtain sid where sid: "curSessionId m = Some sid" "sid \<noteq> []"
      "sid \<in> set (map sessId (sessions d))" "openSegs sid d = []"
    using assms(1) Paused by (auto simp: engineInv_def)
  have t: "truthy (curSessionId m)" using sid by (simp add: truthy_def)
  obtain g d1 where os: "openSegment (served e 0) (dateNow e) (newSegmentId e) sid tid subid d
                            = Inr (g, d1)"
    using assms(3) Paused t sid by (auto simp: resumeWithContext_def Let_def split: sum.splits)
  obtain m2 where r: "refreshSegments e 1
        (m\<lparr>currentSegmentIdRef := Some (segId g), currentTopicId := tid,
           currentSubtopicId := subid\<rparr>, d1) = ((m2, d'), Done)"
    and m': "m' = startLoop e m2"
    using assms(3) Paused t sid os
    by (auto simp: resumeWithContext_def Let_def split: sum.splits prod.splits outcome.splits)
  note f = refreshSegments_frame [OF r]
  note o = storeInv_open [OF si os sid(3,4)]
  show ?thesis
    using o f m' sid assms(2) by (simp add: engineInv_def startLoop_def envOk_def)
next
  case Running
  then obtain sid where sid: "curSessionId m = Some sid" "sid \<noteq> []"
    using assms(1) by (auto simp: engineInv_def)
  have t: "truthy (curSessionId m)" using sid by (simp add: truthy_def)
  obtain m1 d1 k where sw: "switchSegment e sid tid subid (m, d) = ((m1, d1), Done, k)"
    and r: "refreshSegments e k (m1\<lparr>currentTopicId := tid, currentSubtopicId := subid\<rparr>, d1)
              = ((m', d'), Done)"
    using assms(3) Running t sid
    by (auto simp: resumeWithContext_def Let_def split: prod.splits outcome.splits)
  have "engineInv (m1, d1)" using switchSegment_inv [OF assms(1) Running sid(1) assms(2) sw] by simp
  then have "engineInv (m1\<lparr>currentTopicId := tid, currentSubtopicId := subid\<rparr>, d1)"
    using engineInv_cong [of "m1\<lparr>currentTopicId := tid, currentSubtopicId := subid\<rparr>" m1 d1]
    by simp
  then show ?thesis using refreshSegments_inv [OF _ r] by simp
qed

lemma step_inv:
  assumes "engineInv w" and "enabled a (state (fst w))" and "envOk e" and "step a e w = (w', Done)"
  shows "engineInv w'"
proof -
  obtain m d where w: "w = (m, d)" by (cases w)
  obtain m' d' where w': "w' = (m', d')" by (cases w')
  show ?thesis
  proof (cases a)
    case StartSession
    then show ?thesis using assms w w' startSession_inv [of m d e m' d'] by simp
  next
    case PauseSession
    then show ?thesis using assms w w' pauseSession_inv [of m d e m' d'] by simp
  next
    case ResumeSession
    then show ?thesis using assms w w' resumeSession_inv [of m d e m' d'] by simp
  next
    case EndCurrentSession
    then show ?thesis using assms w w' endCurrentSession_inv [of m d e m' d'] by simp
  next
    case (SetTopic tid)
    then show ?thesis using assms w w' setTopic_inv [of m d e tid m' d'] by simp
  next
    case (SetSubtopic subid)
    then show ?thesis using assms w w' setSubtopic_inv [of m d e subid m' d'] by simp
  next
    case (ResumeWithContext tid subid)
    then show ?thesis using assms w w' resumeWithContext_inv [of m d e tid subid m' d'] by simp
  qed
qed

lemma run_inv:
  "engineInv w \<Longrightarrow> guarded acts w \<Longrightarrow> run acts w = (w', Done) \<Longrightarrow> engineInv w'"
proof (induction acts arbitrary: w)
  case Nil
  then show ?case by simp
next
  case (Cons x acts)
  obtain a e where x: "x = (a, e)" by (cases x)
  obtain w1 out where s: "step a e w = (w1, out)" by (cases "step a e w")
  have out: "out = Done" using Cons.prems(3) x s by (cases out) simp_all
  have "engineInv w1" using step_inv [of w a e w1] Cons.prems(1,2) x s out by simp
  moreover have "guarded acts w1" using Cons.prems(2) x s out by simp
  moreover have "run acts w1 = (w', Done)" using Cons.prems(3) x s out by simp
  ultimately show ?case by (rule Cons.IH)
qed

lemma engineInv_initial: "storeInv d \<Longrightarrow> engineInv (initialTimer t, d)"
  by (simp add: engineInv_def initialTimer_def)

lemma engineInv_claim:
  assumes "engineInv (m, d)"
  shows "(\<forall>sid. length (openSegs sid d) \<le> 1)
         \<and> (length (currentOpen (m, d)) = 1 \<longleftrightarrow> state m = Running)
         \<and> (length (currentOpen (m, d)) = 0 \<longleftrightarrow> state m = Idle \<or> state m = Paused)"
proof -
  have a: "\<forall>sid. length (openSegs sid d) \<le> 1" using assms by (simp add: engineInv_def storeInv_def)
  show ?thesis
  proof (cases "state m")
    case Idle
    then show ?thesis using assms a by (simp add: engineInv_def currentOpen_def)
  next
    case Running
    then obtain sid cur where "curSessionId m = Some sid" "map segId (openSegs sid d) = [cur]"
      using assms by (auto simp: engineInv_def)
    moreover from this have "length (openSegs sid d) = 1"
      using length_map [of segId "openSegs sid d"] by simp
    ultimately show ?thesis using Running a by (simp add: currentOpen_def)
  next
    case Paused
    then show ?thesis using assms a by (auto simp: engineInv_def currentOpen_def)
  qed
qed

text \<open>
  Had \<^verbatim>\<open>resumeSession\<close> the test of the state that its siblings have: begun from the idle
  state over a store that satisfies the store invariant, after any sequence of completed
  calls in which \<^verbatim>\<open>pauseSession\<close> is not called when idle and \<^verbatim>\<open>resumeSession\<close> is called
  only when paused, each session has at most one segment with \<open>endTs = None\<close>, and the
  current session has exactly one open segment iff the state is running.
\<close>

lemma guarded_run_invariant:
  assumes "storeInv d0" and "guarded acts (initialTimer t0, d0)"
    and "run acts (initialTimer t0, d0) = ((m, d), Done)"
  shows "(\<forall>sid. length (openSegs sid d) \<le> 1)
         \<and> (length (currentOpen (m, d)) = 1 \<longleftrightarrow> state m = Running)
         \<and> (length (currentOpen (m, d)) = 0 \<longleftrightarrow> state m = Idle \<or> state m = Paused)"
  using run_inv [OF engineInv_initial [OF assms(1)] assms(2,3)] by (rule engineInv_claim)

lemmas engine_defs = startSession_def pauseSession_def resumeSession_def endCurrentSession_def
  setTopic_def setSubtopic_def resumeWithContext_def switchSegment_def closeCurrent_def
  refreshSegments_def startLoop_def stopLoop_def truthyId_def truthy_def served_def
  createSession_def openSegment_def closeSegment_def endSession_def getAllSegments_def
  getSegmentsBySession_def putRec_def falsyTs_def mkEnv_def emptyStore_def initialTimer_def
  computeTimesFromSegments_def orNow_def Let_def

lemma scenarioB_run:
  "run (scenarioB 1000) (initialTimer 0, emptyStore) =
     ((\<lparr>state = Idle, curSessionId = None, currentTopicId = None, currentSubtopicId = None,
        segments = [],
        allSegments = [mkSeg ''g1'' ''s1'' None None 1000 (Some 1000),
                       mkSeg ''g2'' ''s1'' (Some ''math'') None 1000 (Some 4000),
                       mkSeg ''g4'' ''s1'' (Some ''math'') None 6000 (Some 10000)],
        stTodayTime = 7000, stAllTimeTotal = 7000, stTopicTime = 0, stSubtopicTime = 0,
        isInitialized = False, historyRefreshTrigger = 4, currentSegmentIdRef = None,
        animationFrameRef = False, lastUpdateRef = 6000, isRunningRef = False\<rparr>,
       \<lparr>sessions = [\<lparr>sessId = ''s1'', sessStartTs = 1000, sessEndTs = Some 10000\<rparr>],
        segmentStore = [mkSeg ''g1'' ''s1'' None None 1000 (Some 1000),
                        mkSeg ''g2'' ''s1'' (Some ''math'') None 1000 (Some 4000),
                        mkSeg ''g4'' ''s1'' (Some ''math'') None 6000 (Some 10000)]\<rparr>), Done)"
  by (simp add: scenarioB_def engine_defs mkSeg_def)

lemma closeSegment_closes:
  assumes "closeSegment b t i d = Inr d1" and "g \<in> set (segmentStore d)" and "segId g = i"
  shows "\<exists>g' \<in> set (segmentStore d1). segId g' = i \<and> endTs g' \<noteq> None"
using closeSegment_Inr [OF assms(1)] proof (cases rule: closeSegment_cases)
  case absent
  then show ?thesis using find_None_segId [OF absent(1)] assms(2,3) by blast
next
  case (closed g0)
  have "g0 \<in> set (segmentStore d) \<and> segId g0 = i"
    using closed(1) by (auto simp: find_Some_iff)
  moreover have "endTs g0 \<noteq> None"
    using closed(2) by (cases "endTs g0") (auto simp: falsyTs_def)
  ultimately show ?thesis using closed(3) by blast
next
  case (updated g0)
  have i: "segId g0 = i" using updated(1) by (auto simp: find_Some_iff)
  have "(\<lambda>x. if segId x = i then g0\<lparr>endTs := Some t\<rparr> else x) g \<in> set (segmentStore d1)"
    unfolding updated(3) using assms(2) by (simp del: if_split)
  then have "g0\<lparr>endTs := Some t\<rparr> \<in> set (segmentStore d1)" using assms(3) by simp
  then show ?thesis using i by (intro bexI [of _ "g0\<lparr>endTs := Some t\<rparr>"]) simp_all
qed

lemma distinct_key_eq:
  "distinct (map f xs) \<Longrightarrow> x \<in> set xs \<Longrightarrow> y \<in> set xs \<Longrightarrow> f x = f y \<Longrightarrow> x = y"
  by (simp add: distinct_map inj_on_def)

lemma switchSegment_result:
  assumes "switchSegment e sid tid subid (m, d) = ((m1, d1), Done, k)"
  shows "m1 = m\<lparr>currentSegmentIdRef := Some (newSegmentId e)\<rparr>
         \<and> \<lparr>segId = newSegmentId e, sessionId = sid, topicId = tid, subtopicId = subid,
             startTs = dateNow e, endTs = None\<rparr> \<in> set (segmentStore d1)
         \<and> (\<forall>g \<in> set (segmentStore d).
               truthy (currentSegmentIdRef m) \<and> currentSegmentIdRef m = Some (segId g) \<longrightarrow>
               (\<exists>g' \<in> set (segmentStore d1). segId g' = segId g \<and> endTs g' \<noteq> None))"
proof -
  obtain d0 k0 where cc: "closeCurrent e 0 m d = Inr (d0, k0)"
    using assms by (auto simp: switchSegment_def split: sum.splits)
  obtain g where os: "openSegment (served e k0) (dateNow e) (newSegmentId e) sid tid subid d0
                        = Inr (g, d1)"
    and m1: "m1 = m\<lparr>currentSegmentIdRef := Some (segId g)\<rparr>"
    using assms cc by (auto simp: switchSegment_def split: sum.splits)
  note r = openSegment_result [OF openSegment_Inr [OF os]]
  have s: "set (segmentStore d1) = insert g (set (segmentStore d0))"
    using r by (simp add: set_insort_key)
  have "\<exists>g' \<in> set (segmentStore d1). segId g' = segId x \<and> endTs g' \<noteq> None"
    if "x \<in> set (segmentStore d)" "truthy (currentSegmentIdRef m)"
       "currentSegmentIdRef m = Some (segId x)" for x
  proof -
    have "closeSegment (served e 0) (dateNow e) (segId x) d = Inr d0"
      using cc that(2,3) by (auto simp: closeCurrent_def truthyId_def split: sum.splits)
    from closeSegment_closes [OF this that(1)] show ?thesis using s by auto
  qed
  then show ?thesis using r m1 s by auto
qed

text \<open>
  C10.  A completed \<^verbatim>\<open>setTopic(topicId)\<close> leaves the current subtopic \<^verbatim>\<open>null\<close> and the
  current topic \<open>topicId\<close>.  In the running state the segment that was current is stored
  closed, and the newly opened segment, tagged \<open>topicId\<close>, has \<open>subtopicId = None\<close> whatever
  subtopic was selected; under the engine invariant it is the session's only open segment.
\<close>

theorem C10_setTopic_resets_subtopic:
  assumes "setTopic e tid (m, d) = ((m', d'), Done)"
  shows "currentSubtopicId m' = None \<and> currentTopicId m' = tid
     \<and> (state m = Running \<and> truthy (curSessionId m) \<longrightarrow>
          currentSegmentIdRef m' = Some (newSegmentId e)
          \<and> \<lparr>segId = newSegmentId e, sessionId = the (curSessionId m), topicId = tid,
              subtopicId = None, startTs = dateNow e, endTs = None\<rparr> \<in> set (segmentStore d')
          \<and> (\<forall>g \<in> set (segmentStore d).
                truthy (currentSegmentIdRef m) \<and> currentSegmentIdRef m = Some (segId g) \<longrightarrow>
                (\<exists>g' \<in> set (segmentStore d'). segId g' = segId g \<and> endTs g' \<noteq> None))
          \<and> (engineInv (m, d) \<and> envOk e \<longrightarrow>
                currentOpen (m', d') =
                  [\<lparr>segId = newSegmentId e, sessionId = the (curSessionId m), topicId = tid,
                    subtopicId = None, startTs = dateNow e, endTs = None\<rparr>]))"
proof (cases "state m = Running \<and> truthy (curSessionId m)")
  case False
  then have "m' = m\<lparr>currentTopicId := tid, currentSubtopicId := None\<rparr>"
    using assms by (auto simp: setTopic_def Let_def)
  then show ?thesis using False by auto
next
  case True
  then obtain sid where sid: "curSessionId m = Some sid"
    by (auto simp: truthy_def split: option.splits)
  obtain m1 d1 k where sw: "switchSegment e sid tid None (m, d) = ((m1, d1), Done, k)"
    using assms True sid
    by (auto simp: setTopic_def Let_def split: prod.splits outcome.splits)
  obtain m2 where r: "refreshSegments e k (m1, d1) = ((m2, d'), Done)"
    and m': "m' = m2\<lparr>currentTopicId := tid, currentSubtopicId := None\<rparr>"
    using assms True sid sw
    by (auto simp: setTopic_def Let_def split: prod.splits outcome.splits)
  note f = refreshSegments_frame [OF r]
  note res = switchSegment_result [OF sw]
  let ?new = "\<lparr>segId = newSegmentId e, sessionId = sid, topicId = tid,
              subtopicId = None, startTs = dateNow e, endTs = None\<rparr>"
  have inv: "currentOpen (m', d') = [?new]" if "engineInv (m, d)" "envOk e"
  proof -
    have i1: "engineInv (m1, d1)"
      using switchSegment_inv [OF that(1) _ sid that(2) sw] True by simp
    then obtain cur where "map segId (openSegs sid d1) = [cur]"
      using res sid True by (auto simp: engineInv_def)
    then obtain g where g: "openSegs sid d1 = [g]" by (cases "openSegs sid d1") auto
    have "segId g = newSegmentId e" using i1 res sid True g by (auto simp: engineInv_def)
    moreover have "distinct (map segId (segmentStore d1))" using i1 by (simp add: engineInv_def storeInv_def)
    moreover have "g \<in> set (segmentStore d1)"
    proof -
      have "g \<in> set (openSegs sid d1)" using g by simp
      then show ?thesis by (simp add: openSegs_def)
    qed
    moreover have "?new \<in> set (segmentStore d1)" using res by simp
    ultimately have "g = ?new"
      using distinct_key_eq [of segId "segmentStore d1" g ?new] by simp
    then show ?thesis using g m' f sid res by (simp add: currentOpen_def)
  qed
  have a: "currentSubtopicId m' = None \<and> currentTopicId m' = tid
           \<and> currentSegmentIdRef m' = Some (newSegmentId e) \<and> the (curSessionId m) = sid
           \<and> d' = d1"
    using m' f res sid by simp
  show ?thesis using a res inv by blast
qed

section \<open>Runs of the engine\<close>

lemma storeInv_empty: "storeInv emptyStore"
  by (simp add: storeInv_def emptyStore_def openSegs_def)

text \<open>
  C2.  The claim fails on the calls that the page makes for Start in Pomodoro mode, Pause,
  switch to Stopwatch, Resume, switch to Pomodoro, Resume: every call completes, the last
  one is made while the engine is running, and it leaves the session \<open>s1\<close> with two open
  segments, the engine running.  \<^verbatim>\<open>resumeSession\<close> tests only that there is a session;
  \<^verbatim>\<open>resumeWithContext\<close>, \<^verbatim>\<open>setTopic\<close> and \<^verbatim>\<open>setSubtopic\<close> test the state, and in the place
  of the last call each of them leaves one open segment.  Called before any session was
  started, \<^verbatim>\<open>resumeSession\<close> sets the state to running with no session and no open segment.
\<close>

theorem C2_resume_while_running:
  "snd (run resumeTwice (initialTimer 0, emptyStore)) = Done
   \<and> state (fst (fst (run (take 3 resumeTwice) (initialTimer 0, emptyStore)))) = Running
   \<and> state (fst (fst (run resumeTwice (initialTimer 0, emptyStore)))) = Running
   \<and> curSessionId (fst (fst (run resumeTwice (initialTimer 0, emptyStore)))) = Some ''s1''
   \<and> currentOpen (fst (run resumeTwice (initialTimer 0, emptyStore)))
       = [mkSeg ''g3'' ''s1'' None None 3000 None, mkSeg ''g4'' ''s1'' None None 4000 None]
   \<and> length (openSegs ''s1'' (snd (fst (run resumeTwice (initialTimer 0, emptyStore))))) = 2
   \<and> snd (run resumeThenContext (initialTimer 0, emptyStore)) = Done
   \<and> currentOpen (fst (run resumeThenContext (initialTimer 0, emptyStore)))
       = [mkSeg ''g4'' ''s1'' None None 4000 None]
   \<and> currentOpen (fst (setTopic (mkEnv 4000 0 ''s4'' ''g4'') (Some ''math'')
         (fst (run (take 3 resumeTwice) (initialTimer 0, emptyStore)))))
       = [mkSeg ''g4'' ''s1'' (Some ''math'') None 4000 None]
   \<and> currentOpen (fst (setSubtopic (mkEnv 4000 0 ''s4'' ''g4'') (Some ''algebra'')
         (fst (run (take 3 resumeTwice) (initialTimer 0, emptyStore)))))
       = [mkSeg ''g4'' ''s1'' None (Some ''algebra'') 4000 None]
   \<and> snd (run resumeWhileIdle (initialTimer 0, emptyStore)) = Done
   \<and> state (fst (fst (run resumeWhileIdle (initialTimer 0, emptyStore)))) = Running
   \<and> curSessionId (fst (fst (run resumeWhileIdle (initialTimer 0, emptyStore)))) = None
   \<and> segmentStore (snd (fst (run resumeWhileIdle (initialTimer 0, emptyStore)))) = []"
  by (simp add: resumeTwice_def resumeThenContext_def resumeWhileIdle_def engine_defs
      openSegs_def currentOpen_def mkSeg_def)

lemma withSubtopic_run:
  "snd (run withSubtopic (initialTimer 0, emptyStore)) = Done
   \<and> guarded withSubtopic (initialTimer 0, emptyStore)
   \<and> state (fst (fst (run withSubtopic (initialTimer 0, emptyStore)))) = Running
   \<and> curSessionId (fst (fst (run withSubtopic (initialTimer 0, emptyStore)))) = Some ''s1''
   \<and> currentSubtopicId (fst (fst (run withSubtopic (initialTimer 0, emptyStore)))) = Some ''algebra''"
  by (simp add: withSubtopic_def engine_defs envOk_def)

text \<open>
  C10, witness: a running session with the subtopic \<open>algebra\<close> selected; \<^verbatim>\<open>setTopic("math")\<close>
  leaves no subtopic, and the one open segment is tagged \<open>math\<close> with no subtopic.
\<close>

theorem C10_setTopic_resets_subtopic_witness:
  "currentSubtopicId (fst (fst (run withSubtopic (initialTimer 0, emptyStore)))) = Some ''algebra''
   \<and> snd (setTopic (mkEnv 3000 0 ''s3'' ''g3'') (Some ''math'')
            (fst (run withSubtopic (initialTimer 0, emptyStore)))) = Done
   \<and> currentSubtopicId (fst (fst (setTopic (mkEnv 3000 0 ''s3'' ''g3'') (Some ''math'')
            (fst (run withSubtopic (initialTimer 0, emptyStore)))))) = None
   \<and> currentTopicId (fst (fst (setTopic (mkEnv 3000 0 ''s3'' ''g3'') (Some ''math'')
            (fst (run withSubtopic (initialTimer 0, emptyStore)))))) = Some ''math''
   \<and> currentOpen (fst (setTopic (mkEnv 3000 0 ''s3'' ''g3'') (Some ''math'')
            (fst (run withSubtopic (initialTimer 0, emptyStore)))))
       = [mkSeg ''g3'' ''s1'' (Some ''math'') None 3000 None]"
proof -
  let ?w = "fst (run withSubtopic (initialTimer 0, emptyStore))"
  let ?e = "mkEnv 3000 0 ''s3'' ''g3''"
  let ?r = "setTopic ?e (Some ''math'') ?w"
  have i0: "engineInv (initialTimer 0, emptyStore)"
    by (rule engineInv_initial [OF storeInv_empty])
  have w: "run withSubtopic (initialTimer 0, emptyStore) = (?w, Done)"
    using withSubtopic_run by (simp add: prod_eq_iff)
  have g: "guarded withSubtopic (initialTimer 0, emptyStore)"
    using withSubtopic_run by simp
  have i: "engineInv (fst ?w, snd ?w)"
    using run_inv [OF i0 g w] by simp
  have d: "snd ?r = Done"
    by (simp add: withSubtopic_def engine_defs)
  have r: "setTopic ?e (Some ''math'') (fst ?w, snd ?w) = ((fst (fst ?r), snd (fst ?r)), Done)"
    using d by (simp add: prod_eq_iff)
  have e: "envOk ?e \<and> newSegmentId ?e = ''g3'' \<and> dateNow ?e = 3000"
    by (simp add: envOk_def mkEnv_def)
  have t: "truthy (curSessionId (fst ?w))" using withSubtopic_run by (simp add: truthy_def)
  show ?thesis
    using C10_setTopic_resets_subtopic [OF r] i e t withSubtopic_run d
    by (simp add: mkSeg_def)
qed

section \<open>Scenario B\<close>





text \<open>
  With the clock at 0 at the start, the first segment is stored with \<open>endTs = 0\<close>, and
  \<^verbatim>\<open>seg.endTs || now\<close> reads it as a segment with no end.
\<close>

lemma scenarioB_run_0:
  "stAllTimeTotal (fst (fst (run (scenarioB 0) (initialTimer 0, emptyStore)))) = 16000
   \<and> segmentStore (snd (fst (run (scenarioB 0) (initialTimer 0, emptyStore))))
       = [mkSeg ''g1'' ''s1'' None None 0 (Some 0),
          mkSeg ''g2'' ''s1'' (Some ''math'') None 0 (Some 3000),
          mkSeg ''g4'' ''s1'' (Some ''math'') None 5000 (Some 9000)]"
  by (simp add: scenarioB_def engine_defs mkSeg_def)




section \<open>Rejected storage requests\<close>














section \<open>Recovery at start-up\<close>

lemma find_Some_split:
  "find P xs = Some x \<Longrightarrow> \<exists>ys zs. xs = ys @ x # zs \<and> P x \<and> (\<forall>y \<in> set ys. \<not> P y)"
proof (induction xs)
  case Nil
  then show ?case by simp
next
  case (Cons a xs)
  show ?case
  proof (cases "P a")
    case True
    then have "a = x" using Cons.prems by simp
    then have "a # xs = [] @ x # xs \<and> P x \<and> (\<forall>y \<in> set []. \<not> P y)" using True by simp
    then show ?thesis by blast
  next
    case False
    then have "find P xs = Some x" using Cons.prems by simp
    then obtain ys zs where "xs = ys @ x # zs" "P x" "\<forall>y \<in> set ys. \<not> P y"
      using Cons.IH by blast
    then have "a # xs = (a # ys) @ x # zs \<and> P x \<and> (\<forall>y \<in> set (a # ys). \<not> P y)"
      using False by simp
    then show ?thesis by blast
  qed
qed

lemma initAndRecover_served:
  "failAt e = None \<Longrightarrow> initAndRecover e (m, d) = ((recovered e m d, d), Done)"
  by (simp add: initAndRecover_def recovered_def initDB_def getAllSegments_def
      getUnclosedSession_def getSegmentsBySession_def getOpenSegment_def served_def lastElem_def
      Let_def split: option.splits)

lemma recovered_idempotent: "recovered e' (recovered e m d) d = recovered e' m d"
  by (simp add: recovered_def Let_def split: option.splits)

lemma recovery_restores:
  assumes "failAt e = None"
  shows "snd (fst (initAndRecover e (m, d))) = d
     \<and> (find (\<lambda>s. falsyTs (sessEndTs s)) (sessions d) = None \<longrightarrow>
          state (fst (fst (initAndRecover e (initialTimer t, d)))) = Idle)
     \<and> (find (\<lambda>s. falsyTs (sessEndTs s)) (sessions d) = Some u
          \<and> find (\<lambda>g. falsyTs (endTs g))
               (filter (\<lambda>g. sessionId g = sessId u) (segmentStore d)) = Some g \<longrightarrow>
          state (fst (fst (initAndRecover e (m, d)))) = Running
          \<and> currentTopicId (fst (fst (initAndRecover e (m, d)))) = topicId g
          \<and> currentSubtopicId (fst (fst (initAndRecover e (m, d)))) = subtopicId g)
     \<and> (find (\<lambda>s. falsyTs (sessEndTs s)) (sessions d) = Some u
          \<and> find (\<lambda>g. falsyTs (endTs g))
               (filter (\<lambda>g. sessionId g = sessId u) (segmentStore d)) = None
          \<and> filter (\<lambda>g. sessionId g = sessId u) (segmentStore d) \<noteq> [] \<longrightarrow>
          state (fst (fst (initAndRecover e (m, d)))) = Paused
          \<and> currentTopicId (fst (fst (initAndRecover e (m, d))))
              = topicId (last (filter (\<lambda>g. sessionId g = sessId u) (segmentStore d)))
          \<and> currentSubtopicId (fst (fst (initAndRecover e (m, d))))
              = subtopicId (last (filter (\<lambda>g. sessionId g = sessId u) (segmentStore d))))
     \<and> initAndRecover e (fst (initAndRecover e (m, d))) = initAndRecover e (m, d)"
  unfolding initAndRecover_served [OF assms]
  by (simp add: initAndRecover_served [OF assms] recovered_idempotent)
     (simp add: recovered_def Let_def initialTimer_def)


text \<open>
  C7 (as amended).  When no storage request is rejected, recovery returns, leaves the store
  as it is, and takes as the current session the first unclosed session in the order the
  store lists the sessions, whatever the start times; within it, the first open segment in
  the order the store lists the session's segments is the current segment and the state is
  running, and the state is paused when the session has no open segment.  The other
  unclosed sessions and open segments are not closed or marked.
\<close>

theorem C7_recovery_first_in_store_order:
  assumes "failAt e = None"
  shows "\<exists>m'. initAndRecover e (m, d) = ((m', d), Done)
     \<and> (case find (\<lambda>s. falsyTs (sessEndTs s)) (sessions d) of
          None \<Rightarrow> state m' = state m \<and> curSessionId m' = curSessionId m
        | Some u \<Rightarrow>
            curSessionId m' = Some (sessId u)
            \<and> (\<exists>before after. sessions d = before @ u # after
                  \<and> (\<forall>s \<in> set before. \<not> falsyTs (sessEndTs s)))
            \<and> (case find (\<lambda>g. falsyTs (endTs g))
                        (filter (\<lambda>g. sessionId g = sessId u) (segmentStore d)) of
                 Some g \<Rightarrow>
                   state m' = Running \<and> currentSegmentIdRef m' = Some (segId g)
                   \<and> (\<exists>before after.
                         filter (\<lambda>g. sessionId g = sessId u) (segmentStore d) = before @ g # after
                         \<and> (\<forall>x \<in> set before. \<not> falsyTs (endTs x)))
               | None \<Rightarrow> state m' = Paused))"
proof -
  have r: "initAndRecover e (m, d) = ((recovered e m d, d), Done)"
    using assms by (rule initAndRecover_served)
  have "case find (\<lambda>s. falsyTs (sessEndTs s)) (sessions d) of
          None \<Rightarrow> state (recovered e m d) = state m \<and> curSessionId (recovered e m d) = curSessionId m
        | Some u \<Rightarrow>
            curSessionId (recovered e m d) = Some (sessId u)
            \<and> (\<exists>before after. sessions d = before @ u # after
                  \<and> (\<forall>s \<in> set before. \<not> falsyTs (sessEndTs s)))
            \<and> (case find (\<lambda>g. falsyTs (endTs g))
                        (filter (\<lambda>g. sessionId g = sessId u) (segmentStore d)) of
                 Some g \<Rightarrow>
                   state (recovered e m d) = Running
                   \<and> currentSegmentIdRef (recovered e m d) = Some (segId g)
                   \<and> (\<exists>before after.
                         filter (\<lambda>g. sessionId g = sessId u) (segmentStore d) = before @ g # after
                         \<and> (\<forall>x \<in> set before. \<not> falsyTs (endTs x)))
               | None \<Rightarrow> state (recovered e m d) = Paused)"
  proof (cases "find (\<lambda>s. falsyTs (sessEndTs s)) (sessions d)")
    case None
    then show ?thesis by (simp add: recovered_def Let_def)
  next
    case (Some u)
    have fu: "\<exists>before after. sessions d = before @ u # after
                  \<and> (\<forall>s \<in> set before. \<not> falsyTs (sessEndTs s))"
      using find_Some_split [OF Some] by blast
    show ?thesis
    proof (cases "find (\<lambda>g. falsyTs (endTs g))
                        (filter (\<lambda>g. sessionId g = sessId u) (segmentStore d))")
      case None
      then show ?thesis using Some fu by (simp add: recovered_def Let_def)
    next
      case (Some g)
      have fg: "\<exists>before after.
                  filter (\<lambda>g. sessionId g = sessId u) (segmentStore d) = before @ g # after
                  \<and> (\<forall>x \<in> set before. \<not> falsyTs (endTs x))"
        using find_Some_split [OF Some] by blast
      show ?thesis using \<open>find (\<lambda>s. falsyTs (sessEndTs s)) (sessions d) = Some u\<close> Some fu fg
        by (simp add: recovered_def Let_def)
    qed
  qed
  then show ?thesis using r by blast
qed

lemma twoUnclosed_store:
  "snd (fst (run twoUnclosed (initialTimer 0, emptyStore))) =
     \<lparr>sessions = [\<lparr>sessId = ''a'', sessStartTs = 100, sessEndTs = None\<rparr>,
                  \<lparr>sessId = ''b'', sessStartTs = 200, sessEndTs = None\<rparr>],
      segmentStore = [mkSeg ''g1'' ''a'' None None 100 None, mkSeg ''g2'' ''b'' None None 200 None]\<rparr>"
  by (simp add: twoUnclosed_def engine_defs mkSeg_def)

lemma resumeWhileRunning_store:
  "snd (fst (run resumeWhileRunning (initialTimer 0, emptyStore))) =
     \<lparr>sessions = [\<lparr>sessId = ''s1'', sessStartTs = 5, sessEndTs = None\<rparr>],
      segmentStore = [mkSeg ''g1'' ''s1'' None None 5 None, mkSeg ''g2'' ''s1'' None None 6 None]\<rparr>"
  by (simp add: resumeWhileRunning_def engine_defs mkSeg_def)

text \<open>
  C7, witness: a page load over the store left by two \<^verbatim>\<open>startSession\<close> calls with no end
  between them.
\<close>

theorem C7_recovery_first_in_store_order_witness:
  "failAt (mkEnv 300 0 [] []) = None
   \<and> snd (reload 300 twoUnclosed) = Done
   \<and> snd (fst (reload 300 twoUnclosed)) = snd (fst (run twoUnclosed (initialTimer 0, emptyStore)))
   \<and> curSessionId (fst (fst (reload 300 twoUnclosed))) = Some ''a''
   \<and> state (fst (fst (reload 300 twoUnclosed))) = Running
   \<and> currentSegmentIdRef (fst (fst (reload 300 twoUnclosed))) = Some ''g1''"
proof -
  let ?d = "snd (fst (run twoUnclosed (initialTimer 0, emptyStore)))"
  have f: "failAt (mkEnv 300 0 [] []) = None" by (simp add: mkEnv_def)
  obtain m' where m': "initAndRecover (mkEnv 300 0 [] []) (initialTimer 300, ?d) = ((m', ?d), Done)"
    and c: "case find (\<lambda>s. falsyTs (sessEndTs s)) (sessions ?d) of
          None \<Rightarrow> state m' = state (initialTimer 300) \<and> curSessionId m' = curSessionId (initialTimer 300)
        | Some u \<Rightarrow>
            curSessionId m' = Some (sessId u)
            \<and> (\<exists>before after. sessions ?d = before @ u # after
                  \<and> (\<forall>s \<in> set before. \<not> falsyTs (sessEndTs s)))
            \<and> (case find (\<lambda>g. falsyTs (endTs g))
                        (filter (\<lambda>g. sessionId g = sessId u) (segmentStore ?d)) of
                 Some g \<Rightarrow>
                   state m' = Running \<and> currentSegmentIdRef m' = Some (segId g)
                   \<and> (\<exists>before after.
                         filter (\<lambda>g. sessionId g = sessId u) (segmentStore ?d) = before @ g # after
                         \<and> (\<forall>x \<in> set before. \<not> falsyTs (endTs x)))
               | None \<Rightarrow> state m' = Paused)"
    using C7_recovery_first_in_store_order [OF f, of "initialTimer 300" ?d] by blast
  have "curSessionId m' = Some ''a'' \<and> state m' = Running \<and> currentSegmentIdRef m' = Some ''g1''"
    using c unfolding twoUnclosed_store by (simp add: falsyTs_def mkSeg_def)
  then show ?thesis using f m' by (simp add: reload_def)
qed

text \<open>
  C7 as stated fails: of the unclosed sessions \<open>a\<close> (started at 100) and \<open>b\<close> (started at
  200) recovery takes \<open>a\<close>, and of the open segments \<open>g1\<close> (started at 5) and \<open>g2\<close> (started
  at 6) of one session it takes \<open>g1\<close>: the first listed, not the most recently started.  The
  other session and the other segment stay unclosed in the store.
\<close>

theorem C7_counterexample:
  "snd (reload 300 twoUnclosed) = Done
   \<and> curSessionId (fst (fst (reload 300 twoUnclosed))) = Some ''a''
   \<and> sessions (snd (fst (reload 300 twoUnclosed)))
       = [\<lparr>sessId = ''a'', sessStartTs = 100, sessEndTs = None\<rparr>,
          \<lparr>sessId = ''b'', sessStartTs = 200, sessEndTs = None\<rparr>]
   \<and> snd (reload 300 resumeWhileRunning) = Done
   \<and> currentSegmentIdRef (fst (fst (reload 300 resumeWhileRunning))) = Some ''g1''
   \<and> segmentStore (snd (fst (reload 300 resumeWhileRunning)))
       = [mkSeg ''g1'' ''s1'' None None 5 None, mkSeg ''g2'' ''s1'' None None 6 None]"
proof -
  have f: "failAt (mkEnv 300 0 [] []) = None" by (simp add: mkEnv_def)
  show ?thesis
    unfolding reload_def twoUnclosed_store resumeWhileRunning_store initAndRecover_served [OF f]
    by (simp add: recovered_def falsyTs_def mkSeg_def Let_def)
qed

lemma pausedOnMath_run:
  "run pausedOnMath (initialTimer 0, emptyStore) =
     ((\<lparr>state = Paused, curSessionId = Some ''s1'', currentTopicId = Some ''math'',
        currentSubtopicId = None,
        segments = [mkSeg ''g1'' ''s1'' (Some ''math'') None 2000 (Some 3000),
                    mkSeg ''g2'' ''s1'' None None 1000 (Some 2000)],
        allSegments = [mkSeg ''g1'' ''s1'' (Some ''math'') None 2000 (Some 3000),
                       mkSeg ''g2'' ''s1'' None None 1000 (Some 2000)],
        stTodayTime = 0, stAllTimeTotal = 0, stTopicTime = 0, stSubtopicTime = 0,
        isInitialized = False, historyRefreshTrigger = 2, currentSegmentIdRef = None,
        animationFrameRef = False, lastUpdateRef = 1000, isRunningRef = False\<rparr>,
       \<lparr>sessions = [\<lparr>sessId = ''s1'', sessStartTs = 1000, sessEndTs = None\<rparr>],
        segmentStore = [mkSeg ''g1'' ''s1'' (Some ''math'') None 2000 (Some 3000),
                        mkSeg ''g2'' ''s1'' None None 1000 (Some 2000)]\<rparr>), Done)"
  by (simp add: pausedOnMath_def engine_defs mkSeg_def)

text \<open>
  C5, at a failing input.  The store lists the segments of a session in ascending id, and
  ids are random.  A session started with segment id \<open>g2\<close>, switched to the topic \<open>math\<close> with
  segment id \<open>g1\<close>, and paused, is paused on \<open>math\<close>; after a page load recovery finds it
  paused and restores the topic of the segment listed last, \<open>g2\<close>, which is the older one:
  the current topic is \<^verbatim>\<open>null\<close>, not \<open>math\<close>.
\<close>

theorem C5_paused_recovery_takes_last_by_id:
  "snd (run pausedOnMath (initialTimer 0, emptyStore)) = Done
   \<and> state (fst (fst (run pausedOnMath (initialTimer 0, emptyStore)))) = Paused
   \<and> currentTopicId (fst (fst (run pausedOnMath (initialTimer 0, emptyStore)))) = Some ''math''
   \<and> segmentStore (snd (fst (run pausedOnMath (initialTimer 0, emptyStore))))
       = [mkSeg ''g1'' ''s1'' (Some ''math'') None 2000 (Some 3000),
          mkSeg ''g2'' ''s1'' None None 1000 (Some 2000)]
   \<and> snd (reload 5000 pausedOnMath) = Done
   \<and> state (fst (fst (reload 5000 pausedOnMath))) = Paused
   \<and> currentTopicId (fst (fst (reload 5000 pausedOnMath))) = None"
proof -
  have f: "failAt (mkEnv 5000 0 [] []) = None" by (simp add: mkEnv_def)
  show ?thesis
    unfolding reload_def pausedOnMath_run initAndRecover_served [OF f]
    by (simp add: recovered_def falsyTs_def mkSeg_def Let_def)
qed

section \<open>Served storage requests\<close>

text \<open>
  A transition is rejected only through the store: when every request is served and the
  generated ids are not yet stored, it completes.
\<close>

lemma closeSegment_served: "\<exists>d'. closeSegment True t i d = Inr d'"
  by (simp add: closeSegment_def split: option.splits)

lemma endSession_served: "\<exists>d'. endSession True t i d = Inr d'"
  by (simp add: endSession_def split: option.splits)

lemma closeSegment_ids:
  "closeSegment b t i d = Inr d' \<Longrightarrow> set (map segId (segmentStore d')) = set (map segId (segmentStore d))"
proof -
  assume a: "closeSegment b t i d = Inr d'"
  show ?thesis
  using closeSegment_Inr [OF a] proof (cases rule: closeSegment_cases)
    case absent then show ?thesis by simp
  next
    case (closed g) then show ?thesis by simp
  next
    case (updated g)
    have g: "segId g = i" using updated(1) by (auto simp: find_Some_iff)
    have "map segId (map (\<lambda>x. if segId x = i then g\<lparr>endTs := Some t\<rparr> else x) (segmentStore d))
          = map segId (segmentStore d)"
      by (rule map_upd_same) (use g in auto)
    then show ?thesis using updated(3) by simp
  qed
qed

lemma refreshSegments_served:
  "failAt e = None \<Longrightarrow> snd (refreshSegments e k w) = Done"
  by (auto simp: refreshSegments_def getSegmentsBySession_def getAllSegments_def served_def
      split: option.splits prod.splits)

lemma closeCurrent_served:
  assumes "failAt e = None"
  shows "\<exists>d1 k1. closeCurrent e k m d = Inr (d1, k1)
             \<and> set (map segId (segmentStore d1)) = set (map segId (segmentStore d))
             \<and> sessions d1 = sessions d"
proof (cases "truthyId (currentSegmentIdRef m)")
  case None then show ?thesis by (simp add: closeCurrent_def)
next
  case (Some cur)
  obtain d1 where d1: "closeSegment True (dateNow e) cur d = Inr d1"
    using closeSegment_served by blast
  then show ?thesis
    using Some assms closeSegment_ids [OF d1] closeSegment_sessions [OF d1]
    by (simp add: closeCurrent_def served_def)
qed

lemma openSegment_served:
  assumes "failAt e = None" and "newSegmentId e \<notin> set (map segId (segmentStore d))"
  shows "\<exists>g d2. openSegment (served e k) (dateNow e) (newSegmentId e) sid tid subid d = Inr (g, d2)"
  using assms by (simp add: openSegment_def Let_def served_def)

lemma createSession_served:
  assumes "failAt e = None" and "newSessionId e \<notin> set (map sessId (sessions d))"
  shows "\<exists>s d2. createSession (served e k) (dateNow e) (newSessionId e) d = Inr (s, d2)
           \<and> segmentStore d2 = segmentStore d"
  using assms by (simp add: createSession_def Let_def served_def)

lemma switchSegment_served:
  assumes "failAt e = None" and "newSegmentId e \<notin> set (map segId (segmentStore d))"
  shows "\<exists>w1 k. switchSegment e sid tid subid (m, d) = (w1, Done, k)"
proof -
  obtain d1 k1 where c: "closeCurrent e 0 m d = Inr (d1, k1)"
    and i: "set (map segId (segmentStore d1)) = set (map segId (segmentStore d))"
    using closeCurrent_served [OF assms(1)] by blast
  have n: "newSegmentId e \<notin> set (map segId (segmentStore d1))" using assms(2) i by simp
  obtain g d2 where "openSegment (served e k1) (dateNow e) (newSegmentId e) sid tid subid d1 = Inr (g, d2)"
    using openSegment_served [OF assms(1) n] by blast
  then show ?thesis using c by (simp add: switchSegment_def)
qed

lemma startSession_served:
  assumes "failAt e = None" and "newSessionId e \<notin> set (map sessId (sessions d))"
    and "newSegmentId e \<notin> set (map segId (segmentStore d))"
  shows "snd (startSession e (m, d)) = Done"
proof -
  obtain s d1 where c: "createSession (served e 0) (dateNow e) (newSessionId e) d = Inr (s, d1)"
    and i: "segmentStore d1 = segmentStore d"
    using createSession_served [OF assms(1,2)] by blast
  have n: "newSegmentId e \<notin> set (map segId (segmentStore d1))" using assms(3) i by simp
  obtain g d2 where "openSegment (served e 1) (dateNow e) (newSegmentId e) (sessId s) None None d1 = Inr (g, d2)"
    using openSegment_served [OF assms(1) n] by blast
  then show ?thesis using c by (simp add: startSession_def Let_def)
qed


lemma pauseSession_served:
  assumes "failAt e = None"
  shows "snd (pauseSession e (m, d)) = Done"
proof (cases "truthyId (currentSegmentIdRef (stopLoop m))")
  case None then show ?thesis by (simp add: pauseSession_def Let_def)
next
  case (Some cur)
  obtain d1 where d1: "closeSegment True (dateNow e) cur d = Inr d1"
    using closeSegment_served by blast
  have r: "snd (refreshSegments e 1 ((stopLoop m)\<lparr>currentSegmentIdRef := None\<rparr>, d1)) = Done"
    using assms by (rule refreshSegments_served)
  show ?thesis
    using Some d1 r assms
    by (auto simp: pauseSession_def Let_def served_def split: prod.splits outcome.splits)
qed

lemma resumeSession_served:
  assumes "failAt e = None" and "newSegmentId e \<notin> set (map segId (segmentStore d))"
  shows "snd (resumeSession e (m, d)) = Done"
proof (cases "truthyId (curSessionId m)")
  case None then show ?thesis by (simp add: resumeSession_def)
next
  case (Some sid)
  obtain g d1 where o: "openSegment (served e 0) (dateNow e) (newSegmentId e) sid
                           (currentTopicId m) (currentSubtopicId m) d = Inr (g, d1)"
    using openSegment_served [OF assms] by blast
  have r: "snd (refreshSegments e 1 (m\<lparr>currentSegmentIdRef := Some (segId g)\<rparr>, d1)) = Done"
    using assms(1) by (rule refreshSegments_served)
  show ?thesis
    using Some o r
    by (auto simp: resumeSession_def split: prod.splits outcome.splits)
qed

lemma endCurrentSession_served:
  assumes "failAt e = None"
  shows "snd (endCurrentSession e (m, d)) = Done"
proof -
  obtain d1 k1 where c: "closeCurrent e 0 (stopLoop m) d = Inr (d1, k1)"
    using closeCurrent_served [OF assms] by blast
  have s: "\<And>k. served e k" using assms by (simp add: served_def)
  obtain d2 k2 where es:
    "(case truthyId (curSessionId m) of
        Some sid \<Rightarrow> (case endSession (served e k1) (dateNow e) sid d1 of
                       Inl err \<Rightarrow> Inl err | Inr d2 \<Rightarrow> Inr (d2, Suc k1))
      | None \<Rightarrow> Inr (d1, k1)) = Inr (d2, k2)"
  proof (cases "truthyId (curSessionId m)")
    case None then show ?thesis using that by simp
  next
    case (Some sid)
    obtain dd where "endSession True (dateNow e) sid d1 = Inr dd" using endSession_served by blast
    then show ?thesis using Some s that by simp
  qed
  show ?thesis
    using c es s by (simp add: endCurrentSession_def Let_def getAllSegments_def)
qed

lemma setTopic_served:
  assumes "failAt e = None" and "newSegmentId e \<notin> set (map segId (segmentStore d))"
  shows "snd (setTopic e tid (m, d)) = Done"
proof (cases "state m = Running \<and> truthy (curSessionId m)")
  case False then show ?thesis by (auto simp: setTopic_def Let_def)
next
  case True
  obtain w1 k where sw: "switchSegment e (the (curSessionId m)) tid None (m, d) = (w1, Done, k)"
    using switchSegment_served [OF assms] by blast
  have "snd (refreshSegments e k w1) = Done" using assms(1) by (rule refreshSegments_served)
  then show ?thesis using True sw
    by (auto simp: setTopic_def Let_def split: prod.splits outcome.splits)
qed

lemma setSubtopic_served:
  assumes "failAt e = None" and "newSegmentId e \<notin> set (map segId (segmentStore d))"
  shows "snd (setSubtopic e subid (m, d)) = Done"
proof (cases "state m = Running \<and> truthy (curSessionId m)")
  case False then show ?thesis by (auto simp: setSubtopic_def Let_def)
next
  case True
  obtain w1 k where sw: "switchSegment e (the (curSessionId m)) (currentTopicId m) subid (m, d)
                          = (w1, Done, k)"
    using switchSegment_served [OF assms] by blast
  have "snd (refreshSegments e k w1) = Done" using assms(1) by (rule refreshSegments_served)
  then show ?thesis using True sw
    by (auto simp: setSubtopic_def Let_def split: prod.splits outcome.splits)
qed

lemma resumeWithContext_served:
  assumes "failAt e = None" and "newSessionId e \<notin> set (map sessId (sessions d))"
    and "newSegmentId e \<notin> set (map segId (segmentStore d))"
  shows "snd (resumeWithContext e tid subid (m, d)) = Done"
proof (cases "state m")
  case Idle
  obtain s d1 where c: "createSession (served e 0) (dateNow e) (newSessionId e) d = Inr (s, d1)"
    and i: "segmentStore d1 = segmentStore d"
    using createSession_served [OF assms(1,2)] by blast
  have n: "newSegmentId e \<notin> set (map segId (segmentStore d1))" using assms(3) i by simp
  obtain g d2 where "openSegment (served e 1) (dateNow e) (newSegmentId e) (sessId s) tid subid d1 = Inr (g, d2)"
    using openSegment_served [OF assms(1) n] by blast
  then show ?thesis using Idle c by (simp add: resumeWithContext_def Let_def)
next
  case Paused
  show ?thesis
  proof (cases "truthy (curSessionId m)")
    case False then show ?thesis using Paused by (simp add: resumeWithContext_def Let_def)
  next
    case True
    obtain g d1 where o: "openSegment (served e 0) (dateNow e) (newSegmentId e)
                             (the (curSessionId m)) tid subid d = Inr (g, d1)"
      using openSegment_served [OF assms(1,3)] by blast
    have "snd (refreshSegments e 1
            (m\<lparr>currentSegmentIdRef := Some (segId g), currentTopicId := tid,
               currentSubtopicId := subid\<rparr>, d1)) = Done"
      using assms(1) by (rule refreshSegments_served)
    then show ?thesis using Paused True o
      by (auto simp: resumeWithContext_def Let_def split: prod.splits outcome.splits)
  qed
next
  case Running
  show ?thesis
  proof (cases "truthy (curSessionId m)")
    case False then show ?thesis using Running by (simp add: resumeWithContext_def Let_def)
  next
    case True
    obtain m1 d1 k where sw: "switchSegment e (the (curSessionId m)) tid subid (m, d) = ((m1, d1), Done, k)"
      using switchSegment_served [OF assms(1,3)] by (metis surj_pair)
    have "snd (refreshSegments e k (m1\<lparr>currentTopicId := tid, currentSubtopicId := subid\<rparr>, d1)) = Done"
      using assms(1) by (rule refreshSegments_served)
    then show ?thesis using Running True sw
      by (simp add: resumeWithContext_def Let_def)
  qed
qed

lemma step_served:
  assumes "failAt e = None"
    and "newSessionId e \<notin> set (map sessId (sessions (snd w)))"
    and "newSegmentId e \<notin> set (map segId (segmentStore (snd w)))"
  shows "snd (step a e w) = Done"
proof -
  obtain m d where w: "w = (m, d)" by (cases w)
  show ?thesis
    using assms w startSession_served [of e d m] pauseSession_served [of e m d]
      resumeSession_served [of e d m] endCurrentSession_served [of e m d]
      setTopic_served [of e d _ m] setSubtopic_served [of e d _ m]
      resumeWithContext_served [of e d _ _ m]
    by (cases a) simp_all
qed

end
